theory Spec2Isabelle
  imports Complex_Main "HOL-Library.Word"
begin

section \<open>The host-side batch pipeline of \<open>faiss/gpu/GpuIndex.cu\<close>\<close>

text \<open>
  A shallow embedding of \<open>GpuIndex\<close>: the metadata exchange with a host-side index, the
  insert path (\<open>add_with_ids\<close>, \<open>addPaged_\<close>, \<open>addPage_\<close>), and the search path
  (\<open>search\<close>, \<open>searchNonPaged_\<close>, \<open>searchFromCpuPaged_\<close> with its sequential paging and
  its double-buffered loop).

  Conventions.
  \<^item> Isabelle refuses a constant whose name ends in an underscore, so the private members
    \<open>addPaged_\<close>, \<open>addPage_\<close>, \<open>addImpl_\<close>, \<open>searchNonPaged_\<close>, \<open>searchFromCpuPaged_\<close>,
    \<open>searchImpl_\<close>, \<open>addImplRequiresIDs_\<close>, \<open>config_\<close> and \<open>minPagedSize_\<close> lose it here.
  \<^item> \<open>idx_t\<close> is a signed 64-bit integer and \<open>size_t\<close> an unsigned one. Both are modelled
    by \<open>int\<close>; where the source multiplies a caller-supplied count into a byte size the
    conversion to \<open>size_t\<close> and back is written out (\<open>to_size_t\<close>, \<open>to_idx_t\<close>).
  \<^item> A C++ exception is an \<open>outcome\<close> next to the state reached when it was thrown, so
    that what happened before the throw stays visible.
  \<^item> Calls that leave this file (the residency bridge \<open>toDeviceTemporary\<close>,
    \<open>fromDevice\<close>, the virtual \<open>addImpl_\<close> and \<open>searchImpl_\<close>, the copies of the paged
    search) are recorded in a trace of \<open>event\<close>s, in the order the host issues them.
  \<^item> The resource pool is taken to deliver: a failed allocation or transfer, which would
    abort the call, is not a branch of the model. The same holds for a throw of
    \<open>searchImpl_\<close>; a throw of \<open>addImpl_\<close> is modelled, since tiles before it stay added.
  \<^item> A function whose loop need not end returns an \<open>option\<close>: \<open>None\<close> is the call that
    does not return.
\<close>

subsection \<open>Integers\<close>

type_synonym idx_t = int

definition to_size_t :: "int \<Rightarrow> int" where
  "to_size_t v = v mod 2 ^ 64"

definition to_idx_t :: "int \<Rightarrow> int" where
  "to_idx_t v = (v + 2 ^ 63) mod 2 ^ 64 - 2 ^ 63"

text \<open>The constants at the head of the file.\<close>

definition kMinPageSize :: idx_t where
  "kMinPageSize = 256 * 1024 * 1024"

definition kNonPinnedPageSize :: idx_t where
  "kNonPinnedPageSize = 256 * 1024 * 1024"

definition kAddPageSize :: idx_t where
  "kAddPageSize = 256 * 1024 * 1024"

definition kAddVecSize :: idx_t where
  "kAddVecSize = 512 * 1024"

definition kSearchVecSize :: idx_t where
  "kSearchVecSize = 32 * 1024"

subsection \<open>Element encodings\<close>

text \<open>
  Modelled from the spec: the enumeration \<open>NumericType\<close> is declared outside this file.
  The three tags every dispatch compares against are \<open>Float32\<close>, \<open>Float16\<close> and \<open>Int8\<close>;
  \<open>OtherNumericType\<close> stands for any value of the enumeration that is none of them.
\<close>

datatype NumericType = Float32 | Float16 | Int8 | OtherNumericType

text \<open>
  \<open>sizeof(data_t)\<close> for the element type a dispatch lambda is instantiated with
  (\<open>float\<close>, \<open>half\<close>, \<open>int8_t\<close>). The lambda is never instantiated for another tag.
\<close>

fun sizeof_data_t :: "NumericType \<Rightarrow> int" where
  "sizeof_data_t Float32 = 4"
| "sizeof_data_t Float16 = 2"
| "sizeof_data_t Int8 = 1"
| "sizeof_data_t OtherNumericType = 0"

datatype error =
    NotTrained
  | InvalidK
  | UnsupportedEncoding
  | LengthError
  | AssertionFailed
  | ImplFailure

datatype outcome = Success | Failure error

text \<open>
  Modelled from the spec: \<open>get_numeric_type_size\<close> is defined outside this file; the
  spec calls its value the element size \<open>s\<close> of the encoding. For the three supported
  tags it is the size of the element type the dispatch binds (the paged search copies
  the same buffer once with this size and once with \<open>sizeof(data_t)\<close>). Whether the
  lookup itself rejects another tag is not visible, so the model takes it as the
  parameter \<open>other\<close>: \<open>None\<close> when the lookup throws, \<open>Some s\<close> when it returns \<open>s\<close>.
\<close>

fun get_numeric_type_size :: "int option \<Rightarrow> NumericType \<Rightarrow> error + int" where
  "get_numeric_type_size other Float32 = Inr 4"
| "get_numeric_type_size other Float16 = Inr 2"
| "get_numeric_type_size other Int8 = Inr 1"
| "get_numeric_type_size other OtherNumericType =
     (case other of None \<Rightarrow> Inl UnsupportedEncoding | Some s \<Rightarrow> Inr s)"

definition supported :: "NumericType \<Rightarrow> bool" where
  "supported t = (t = Float32 \<or> t = Float16 \<or> t = Int8)"

subsection \<open>Index metadata and configuration\<close>

text \<open>
  \<open>faiss::Index\<close> carries the metadata; \<open>GpuIndex\<close> derives from it and adds the
  configuration and the paging threshold. A record extension is the derived class; the
  \<open>more\<close> part of a scheme is whatever a further subclass adds. \<open>metric_arg\<close> is a
  \<open>float\<close>, kept as its 32 bits; \<open>metric_type\<close> is the enumeration's value.
\<close>

record GpuIndexConfig =
  device :: int
  use_cuvs :: bool

record Index =
  d :: int
  ntotal :: idx_t
  is_trained :: bool
  metric_type :: int
  metric_arg :: "32 word"

record GpuIndex = Index +
  config :: GpuIndexConfig
  minPagedSize :: int

definition copyFrom :: "'a GpuIndex_scheme \<Rightarrow> 'b Index_scheme \<Rightarrow> 'a GpuIndex_scheme" where
  "copyFrom this index =
     this\<lparr>d := d index,
          metric_type := metric_type index,
          metric_arg := metric_arg index,
          ntotal := ntotal index,
          is_trained := is_trained index\<rparr>"

definition copyTo :: "'a GpuIndex_scheme \<Rightarrow> 'b Index_scheme \<Rightarrow> 'b Index_scheme" where
  "copyTo this index =
     index\<lparr>d := d this,
           metric_type := metric_type this,
           metric_arg := metric_arg this,
           ntotal := ntotal this,
           is_trained := is_trained this\<rparr>"

definition setMinPagingSize :: "int \<Rightarrow> 'a GpuIndex_scheme \<Rightarrow> 'a GpuIndex_scheme" where
  "setMinPagingSize sz this = this\<lparr>minPagedSize := sz\<rparr>"

definition getMinPagingSize :: "'a GpuIndex_scheme \<Rightarrow> int" where
  "getMinPagingSize this = minPagedSize this"

text \<open>The five metadata fields of an index, as a tuple.\<close>

definition metadata :: "'a Index_scheme \<Rightarrow> int \<times> int \<times> 32 word \<times> idx_t \<times> bool" where
  "metadata i = (d i, metric_type i, metric_arg i, ntotal i, is_trained i)"

subsection \<open>Collaborators and the trace\<close>

datatype buffer = Vectors | Ids | Distances | Labels

text \<open>
  What the host asks of the world outside this file, in issue order.
  \<open>ToDeviceTemporary b rows\<close> and \<open>FromDevice b\<close> are the residency bridge;
  \<open>AddImpl n off t ids\<close> is \<open>addImpl_\<close> on the \<open>n\<close> vectors that start \<open>off\<close> vectors into
  the caller's array, with the identifiers it is handed; \<open>SearchImpl n off t k\<close> is
  \<open>searchImpl_\<close> on \<open>n\<close> queries whose results go to the output rows from \<open>off\<close>;
  \<open>HostToPinned\<close> and \<open>PinnedToGpu\<close> are the two copies of the double-buffered search
  (first row, number of rows, buffer index).
\<close>

datatype event =
    ToDeviceTemporary buffer idx_t
  | FromDevice buffer
  | AddImpl idx_t idx_t NumericType "idx_t list option"
  | SearchImpl idx_t idx_t NumericType int
  | HostToPinned idx_t idx_t nat
  | PinnedToGpu idx_t idx_t nat

text \<open>
  The collaborators a call reaches, as parameters:
  \<open>getDevicePropertiesMajor\<close> is \<open>getDeviceProperties(device).major\<close>;
  \<open>getMaxKSelection\<close> the largest \<open>k\<close> of the selection backend (by backend use);
  \<open>otherTypeSize\<close> the parameter of \<open>get_numeric_type_size\<close>;
  \<open>getPinnedMemory\<close> the pair of \<open>resources_->getPinnedMemory()\<close>, its pointer kept as
  "is not null";
  \<open>addImplRequiresIDs\<close>, \<open>addImpl\<close> and \<open>searchImpl\<close> the virtual members a subclass
  implements. \<open>addImpl\<close> may change the index (a subclass counts and stores) and may
  throw; \<open>searchImpl\<close> maps a batch of queries to one result row per query.
\<close>

record ('a, 'v, 'r) collaborators =
  getDevicePropertiesMajor :: "int \<Rightarrow> int"
  getMaxKSelection :: "bool \<Rightarrow> int"
  otherTypeSize :: "int option"
  getPinnedMemory :: "bool \<times> int"
  addImplRequiresIDs :: "'a GpuIndex_scheme \<Rightarrow> bool"
  addImpl :: "idx_t \<Rightarrow> idx_t \<Rightarrow> NumericType \<Rightarrow> idx_t list option
              \<Rightarrow> 'a GpuIndex_scheme \<Rightarrow> outcome \<times> 'a GpuIndex_scheme"
  searchImpl :: "'v list \<Rightarrow> NumericType \<Rightarrow> int \<Rightarrow> 'r list"

type_synonym 'a add_state = "'a GpuIndex_scheme \<times> event list"

definition should_use_cuvs :: "('a, 'v, 'r) collaborators \<Rightarrow> GpuIndexConfig \<Rightarrow> bool" where
  "should_use_cuvs env config' =
     (if getDevicePropertiesMajor env (device config') < 7 then False
      else use_cuvs config')"

subsection \<open>Insert\<close>

text \<open>
  \<open>x\<close> is the offset, in vectors, of the pointer into the caller's array; \<open>ids\<close> is
  \<open>None\<close> for a null pointer and otherwise the identifiers from the pointer on.
  \<open>addPage_\<close>: both dispatch arms stage the vectors, stage the identifiers when there
  are some (\<open>n\<close> of them), and call the implementation.
\<close>

definition addPage_dispatch ::
  "('a, 'v, 'r) collaborators \<Rightarrow> idx_t \<Rightarrow> idx_t \<Rightarrow> NumericType \<Rightarrow> idx_t list option
   \<Rightarrow> 'a add_state \<Rightarrow> outcome \<times> 'a add_state" where
  "addPage_dispatch env n x numeric_type ids st =
     (case st of (this, tr) \<Rightarrow>
        (case ids of
           Some is \<Rightarrow>
             (let indices = take (nat n) is;
                  (r, this') = addImpl env n x numeric_type (Some indices) this
              in (r, this',
                  tr @ [ToDeviceTemporary Vectors n, ToDeviceTemporary Ids n,
                        AddImpl n x numeric_type (Some indices)]))
         | None \<Rightarrow>
             (let (r, this') = addImpl env n x numeric_type None this
              in (r, this',
                  tr @ [ToDeviceTemporary Vectors n, AddImpl n x numeric_type None]))))"

definition addPage ::
  "('a, 'v, 'r) collaborators \<Rightarrow> idx_t \<Rightarrow> idx_t \<Rightarrow> NumericType \<Rightarrow> idx_t list option
   \<Rightarrow> 'a add_state \<Rightarrow> outcome \<times> 'a add_state" where
  "addPage env n x numeric_type ids st =
     (if numeric_type = Float32 then addPage_dispatch env n x numeric_type ids st
      else if numeric_type = Float16 then addPage_dispatch env n x numeric_type ids st
      else if numeric_type = Int8 then addPage_dispatch env n x numeric_type ids st
      else (Failure UnsupportedEncoding, st))"

text \<open>
  The tile loop of \<open>addPaged_\<close>: \<open>for (idx_t i = 0; i < n; i += tileSize)\<close>. A throw of a
  tile ends the loop. \<open>None\<close> is a loop that does not return.
\<close>

partial_function (option) addPaged_loop ::
  "('a, 'v, 'r) collaborators \<Rightarrow> idx_t \<Rightarrow> idx_t \<Rightarrow> idx_t \<Rightarrow> NumericType
   \<Rightarrow> idx_t list option \<Rightarrow> idx_t \<Rightarrow> 'a add_state \<Rightarrow> (outcome \<times> 'a add_state) option" where
  "addPaged_loop env tileSize n x numeric_type ids i st =
     (if i < n then
        (let curNum = min tileSize (n - i);
             (r, st') = addPage env curNum (x + i) numeric_type
                          (map_option (drop (nat i)) ids) st
         in if r = Success
            then addPaged_loop env tileSize n x numeric_type ids (i + tileSize) st'
            else Some (r, st'))
      else Some (Success, st))"

declare addPaged_loop.simps [code]

text \<open>
  The dispatch lambda of \<open>addPaged_\<close>, with \<open>sizeof(data_t)\<close> as \<open>sz\<close>. \<open>totalSize\<close> is
  computed in \<open>size_t\<close> and stored in an \<open>idx_t\<close>. \<open>d\<close> is a positive C \<open>int\<close>, so
  \<open>d * sizeof(data_t)\<close> does not wrap.
\<close>

definition addPaged_dispatch ::
  "('a, 'v, 'r) collaborators \<Rightarrow> int \<Rightarrow> idx_t \<Rightarrow> idx_t \<Rightarrow> NumericType \<Rightarrow> idx_t list option
   \<Rightarrow> 'a add_state \<Rightarrow> (outcome \<times> 'a add_state) option" where
  "addPaged_dispatch env sz n x numeric_type ids st =
     (case st of (this, tr) \<Rightarrow>
        (let totalSize = to_idx_t (to_size_t (n * d this * sz)) in
         if \<not> should_use_cuvs env (config this)
            \<and> (totalSize > kAddPageSize \<or> n > kAddVecSize)
         then
           (let maxNumVecsForPageSize = kAddPageSize div (d this * sz);
                maxNumVecsForPageSize = max maxNumVecsForPageSize 1;
                tileSize = min n maxNumVecsForPageSize;
                tileSize = min tileSize kSearchVecSize
            in addPaged_loop env tileSize n x numeric_type ids 0 st)
         else Some (addPage env n x numeric_type ids st)))"

definition addPaged ::
  "('a, 'v, 'r) collaborators \<Rightarrow> idx_t \<Rightarrow> idx_t \<Rightarrow> NumericType \<Rightarrow> idx_t list option
   \<Rightarrow> 'a add_state \<Rightarrow> (outcome \<times> 'a add_state) option" where
  "addPaged env n x numeric_type ids st =
     (if n \<le> 0 then Some (Success, st)
      else if numeric_type = Float32
        then addPaged_dispatch env (sizeof_data_t Float32) n x numeric_type ids st
      else if numeric_type = Float16
        then addPaged_dispatch env (sizeof_data_t Float16) n x numeric_type ids st
      else if numeric_type = Int8
        then addPaged_dispatch env (sizeof_data_t Int8) n x numeric_type ids st
      else Some (Failure UnsupportedEncoding, st))"

text \<open>
  \<open>add_with_ids\<close>. The generated identifiers are \<open>ntotal + i\<close> for \<open>i < n\<close>;
  \<open>std::vector<idx_t>(n)\<close> throws \<open>std::length_error\<close> for a negative \<open>n\<close>. When no
  identifiers are passed and none are generated, the vector is empty and its \<open>data()\<close>
  is taken to be the null pointer.
\<close>

definition generatedIds :: "idx_t \<Rightarrow> idx_t \<Rightarrow> idx_t list" where
  "generatedIds ntotal' n = map (\<lambda>i. ntotal' + int i) [0 ..< nat n]"

definition add_with_ids ::
  "('a, 'v, 'r) collaborators \<Rightarrow> idx_t \<Rightarrow> NumericType \<Rightarrow> idx_t list option
   \<Rightarrow> 'a add_state \<Rightarrow> (outcome \<times> 'a add_state) option" where
  "add_with_ids env n numeric_type ids st =
     (case st of (this, tr) \<Rightarrow>
        if \<not> is_trained this then Some (Failure NotTrained, st)
        else if n = 0 then Some (Success, st)
        else if ids = None \<and> addImplRequiresIDs env this then
          (if n < 0 then Some (Failure LengthError, st)
           else addPaged env n 0 numeric_type (Some (generatedIds (ntotal this) n)) st)
        else addPaged env n 0 numeric_type ids st)"

definition add ::
  "('a, 'v, 'r) collaborators \<Rightarrow> idx_t \<Rightarrow> NumericType
   \<Rightarrow> 'a add_state \<Rightarrow> (outcome \<times> 'a add_state) option" where
  "add env n numeric_type st = add_with_ids env n numeric_type None st"

subsection \<open>Search: validation and the untiled path\<close>

text \<open>
  Modelled from the spec: \<open>validateKSelect\<close> is defined outside this file. The spec:
  it fails with \<open>InvalidK\<close> if \<open>k\<close> is zero, negative, or exceeds the maximum supported
  by the active selection backend.
\<close>

definition validateKSelect :: "('a, 'v, 'r) collaborators \<Rightarrow> int \<Rightarrow> bool \<Rightarrow> outcome" where
  "validateKSelect env k use =
     (if k = 0 \<or> k < 0 \<or> k > getMaxKSelection env use then Failure InvalidK
      else Success)"

text \<open>
  Modelled from the spec: \<open>utils::nextHighestPowerOf2\<close> is defined outside this file.
  The spec: the fallback page size is rounded to the next power of two. Here it is the
  least power of two above the argument, found by doubling from 1.
\<close>

function doubling :: "int \<Rightarrow> int \<Rightarrow> int" where
  "doubling p v = (if 0 < p \<and> p \<le> v then doubling (2 * p) v else p)"
  by pat_completeness auto
termination
  by (relation "measure (\<lambda>(p, v). nat (v + 1 - p))") auto

declare doubling.simps [simp del]

definition nextHighestPowerOf2 :: "int \<Rightarrow> int" where
  "nextHighestPowerOf2 v = doubling 1 v"

text \<open>
  The search state is the device-resident output tensor (one row of \<open>k\<close> distances and
  labels per query: the caller's buffer, or its device copy that \<open>FromDevice\<close> copies
  back) and the trace. \<open>searchImpl_\<close> writes its rows from the output pointer on.
\<close>

type_synonym 'r search_state = "'r list \<times> event list"

definition write_rows :: "'r list \<Rightarrow> idx_t \<Rightarrow> 'r list \<Rightarrow> 'r list" where
  "write_rows out off rows = take (nat off) out @ rows @ drop (nat off + length rows) out"

text \<open>
  One arm of \<open>searchNonPaged_\<close>: stage the \<open>n\<close> queries at \<open>x\<close>, call the implementation.
  The \<open>Float32\<close> arm calls the overload of \<open>searchImpl_\<close> without a tag; like the other
  \<open>float\<close> overloads of this class it is taken to forward with \<open>Float32\<close>.
\<close>

definition searchNonPaged_arm ::
  "('a, 'v, 'r) collaborators \<Rightarrow> idx_t \<Rightarrow> 'v list \<Rightarrow> NumericType \<Rightarrow> int \<Rightarrow> idx_t
   \<Rightarrow> 'r search_state \<Rightarrow> outcome \<times> 'r search_state" where
  "searchNonPaged_arm env n x numeric_type k outData st =
     (case st of (out, tr) \<Rightarrow>
        (let vecs = take (nat n) x
         in (Success,
             write_rows out outData (searchImpl env vecs numeric_type k),
             tr @ [ToDeviceTemporary Vectors n, SearchImpl n outData numeric_type k])))"

definition searchNonPaged ::
  "('a, 'v, 'r) collaborators \<Rightarrow> idx_t \<Rightarrow> 'v list \<Rightarrow> NumericType \<Rightarrow> int \<Rightarrow> idx_t
   \<Rightarrow> 'r search_state \<Rightarrow> outcome \<times> 'r search_state" where
  "searchNonPaged env n x numeric_type k outData st =
     (if numeric_type = Float32 then searchNonPaged_arm env n x Float32 k outData st
      else if numeric_type = Float16 then searchNonPaged_arm env n x numeric_type k outData st
      else if numeric_type = Int8 then searchNonPaged_arm env n x numeric_type k outData st
      else (Failure UnsupportedEncoding, st))"

subsection \<open>Paged search without pinned memory\<close>

text \<open>
  \<open>for (idx_t cur = 0; cur < n; cur += batchSize)\<close>: each page goes through
  \<open>searchNonPaged_\<close> with the queries from \<open>cur\<close> on and the output rows from \<open>cur\<close> on.
  The chain of tag tests in the body has no final \<open>else\<close>.
\<close>

partial_function (option) searchFromCpuPaged_unbuffered ::
  "('a, 'v, 'r) collaborators \<Rightarrow> idx_t \<Rightarrow> 'v list \<Rightarrow> NumericType \<Rightarrow> int \<Rightarrow> idx_t \<Rightarrow> idx_t
   \<Rightarrow> 'r search_state \<Rightarrow> (outcome \<times> 'r search_state) option" where
  "searchFromCpuPaged_unbuffered env n x numeric_type k batchSize cur st =
     (if cur < n then
        (let num = min batchSize (n - cur);
             (r, st') =
               (if numeric_type = Float32
                  then searchNonPaged env num (drop (nat cur) x) numeric_type k cur st
                else if numeric_type = Float16
                  then searchNonPaged env num (drop (nat cur) x) numeric_type k cur st
                else if numeric_type = Int8
                  then searchNonPaged env num (drop (nat cur) x) numeric_type k cur st
                else (Success, st))
         in if r = Success
            then searchFromCpuPaged_unbuffered env n x numeric_type k batchSize
                   (cur + batchSize) st'
            else Some (r, st'))
      else Some (Success, st))"

declare searchFromCpuPaged_unbuffered.simps [code]

subsection \<open>Paged search with two pinned buffers\<close>

text \<open>
  The loop state: the three cursors and their buffer indices, the two pinned and the two
  device buffers (each holds the vectors written to it so far), the two arrays of
  completion events (\<open>True\<close> once an event object is there), the output tensor, the
  batches that \<open>searchImpl_\<close> was handed so far (\<open>passed\<close>: what it reads from the device
  buffer it is pointed at, in call order) and the trace. A copy of \<open>m\<close> vectors overwrites
  the first \<open>m\<close> vectors of its destination.
  The model runs the copies and the computation in issue order; in the source the
  three event waits order every use of a buffer after the operation that filled it and
  every refill after the operation that read it.
\<close>

record ('v, 'r) pipeline =
  cur1 :: idx_t
  cur1BufIndex :: nat
  cur2 :: idx_t
  cur2BufIndex :: nat
  cur3 :: idx_t
  cur3BufIndex :: nat
  bufPinned :: "'v list list"
  bufGpus :: "'v list list"
  eventPinnedCopyDone :: "bool list"
  eventGpuExecuteDone :: "bool list"
  outRows :: "'r list"
  passed :: "'v list list"
  issued :: "event list"

definition overwrite :: "'v list \<Rightarrow> 'v list \<Rightarrow> 'v list" where
  "overwrite src dst = src @ drop (length src) dst"

definition flip :: "nat \<Rightarrow> nat" where
  "flip b = (if b = 0 then 1 else 0)"

text \<open>Pinned to GPU (cursor 2).\<close>

definition stage_transfer :: "idx_t \<Rightarrow> idx_t \<Rightarrow> ('v, 'r) pipeline \<Rightarrow> ('v, 'r) pipeline" where
  "stage_transfer n pageSizeInVecs s =
     (if cur2 s \<noteq> - 1 \<and> cur2 s < n then
        (let numToCopy = min pageSizeInVecs (n - cur2 s);
             b = cur2BufIndex s
         in s\<lparr>bufGpus := (bufGpus s)
                  [b := overwrite (take (nat numToCopy) (bufPinned s ! b)) (bufGpus s ! b)],
               eventPinnedCopyDone := (eventPinnedCopyDone s)[b := True],
               issued := issued s @ [PinnedToGpu (cur2 s) numToCopy b],
               cur3 := cur2 s,
               cur2 := cur2 s + numToCopy,
               cur2BufIndex := flip b\<rparr>)
      else s)"

text \<open>Compute on the GPU (cursor 3); \<open>FAISS_ASSERT\<close> wants the copy event to be there.\<close>

definition stage_compute ::
  "('a, 'v, 'r) collaborators \<Rightarrow> idx_t \<Rightarrow> idx_t \<Rightarrow> NumericType \<Rightarrow> int
   \<Rightarrow> ('v, 'r) pipeline \<Rightarrow> outcome \<times> ('v, 'r) pipeline" where
  "stage_compute env n pageSizeInVecs numeric_type k s =
     (if cur3 s \<noteq> - 1 \<and> cur3 s < n then
        (let numToProcess = min pageSizeInVecs (n - cur3 s);
             b = cur3BufIndex s
         in if \<not> eventPinnedCopyDone s ! b then (Failure AssertionFailed, s)
            else
              (Success,
               s\<lparr>outRows := write_rows (outRows s) (cur3 s)
                     (searchImpl env (take (nat numToProcess) (bufGpus s ! b)) numeric_type k),
                 passed := passed s @ [take (nat numToProcess) (bufGpus s ! b)],
                 eventGpuExecuteDone := (eventGpuExecuteDone s)[b := True],
                 issued := issued s @ [SearchImpl numToProcess (cur3 s) numeric_type k],
                 cur3BufIndex := flip b,
                 cur3 := cur3 s + numToProcess\<rparr>))
      else (Success, s))"

text \<open>Host memory to pinned (cursor 1).\<close>

definition stage_copy_in ::
  "idx_t \<Rightarrow> idx_t \<Rightarrow> 'v list \<Rightarrow> ('v, 'r) pipeline \<Rightarrow> ('v, 'r) pipeline" where
  "stage_copy_in n pageSizeInVecs x s =
     (if cur1 s < n then
        (let numToCopy = min pageSizeInVecs (n - cur1 s);
             b = cur1BufIndex s
         in s\<lparr>bufPinned := (bufPinned s)
                  [b := overwrite (take (nat numToCopy) (drop (nat (cur1 s)) x)) (bufPinned s ! b)],
               issued := issued s @ [HostToPinned (cur1 s) numToCopy b],
               cur2 := cur1 s,
               cur1 := cur1 s + numToCopy,
               cur1BufIndex := flip b\<rparr>)
      else s)"

text \<open>The body of \<open>while (cur3 < n)\<close>: transfer, then compute, then copy in.\<close>

definition pipeline_iteration ::
  "('a, 'v, 'r) collaborators \<Rightarrow> idx_t \<Rightarrow> idx_t \<Rightarrow> 'v list \<Rightarrow> NumericType \<Rightarrow> int
   \<Rightarrow> ('v, 'r) pipeline \<Rightarrow> outcome \<times> ('v, 'r) pipeline" where
  "pipeline_iteration env n pageSizeInVecs x numeric_type k s =
     (let s2 = stage_transfer n pageSizeInVecs s;
          (r, s3) = stage_compute env n pageSizeInVecs numeric_type k s2
      in if r = Success then (Success, stage_copy_in n pageSizeInVecs x s3)
         else (r, s3))"

partial_function (option) pipeline_loop ::
  "('a, 'v, 'r) collaborators \<Rightarrow> idx_t \<Rightarrow> idx_t \<Rightarrow> 'v list \<Rightarrow> NumericType \<Rightarrow> int
   \<Rightarrow> ('v, 'r) pipeline \<Rightarrow> (outcome \<times> ('v, 'r) pipeline) option" where
  "pipeline_loop env n pageSizeInVecs x numeric_type k s =
     (if cur3 s < n then
        (let (r, s') = pipeline_iteration env n pageSizeInVecs x numeric_type k s
         in if r = Success
            then pipeline_loop env n pageSizeInVecs x numeric_type k s'
            else Some (r, s'))
      else Some (Success, s))"

declare pipeline_loop.simps [code]

definition pipeline_init :: "'r search_state \<Rightarrow> ('v, 'r) pipeline" where
  "pipeline_init st =
     \<lparr>cur1 = 0, cur1BufIndex = 0,
      cur2 = - 1, cur2BufIndex = 0,
      cur3 = - 1, cur3BufIndex = 0,
      bufPinned = [[], []], bufGpus = [[], []],
      eventPinnedCopyDone = [False, False],
      eventGpuExecuteDone = [False, False],
      outRows = fst st, passed = [], issued = snd st\<rparr>"

text \<open>The dispatch lambda of \<open>searchFromCpuPaged_\<close>.\<close>

definition searchFromCpuPaged_dispatch ::
  "('a, 'v, 'r) collaborators \<Rightarrow> idx_t \<Rightarrow> idx_t \<Rightarrow> 'v list \<Rightarrow> NumericType \<Rightarrow> int
   \<Rightarrow> 'r search_state \<Rightarrow> (outcome \<times> 'r search_state) option" where
  "searchFromCpuPaged_dispatch env n pageSizeInVecs x numeric_type k st =
     map_option (\<lambda>(r, s). (r, outRows s, issued s))
       (pipeline_loop env n pageSizeInVecs x numeric_type k (pipeline_init st))"

definition searchFromCpuPaged ::
  "('a, 'v, 'r) collaborators \<Rightarrow> 'a GpuIndex_scheme \<Rightarrow> idx_t \<Rightarrow> 'v list \<Rightarrow> NumericType \<Rightarrow> int
   \<Rightarrow> 'r search_state \<Rightarrow> (outcome \<times> 'r search_state) option" where
  "searchFromCpuPaged env this n x numeric_type k st =
     (case get_numeric_type_size (otherTypeSize env) numeric_type of
        Inl e \<Rightarrow> Some (Failure e, st)
      | Inr s \<Rightarrow>
          (let pinnedAlloc = getPinnedMemory env;
               pageSizeInVecs = (snd pinnedAlloc div 2) div (s * d this)
           in if \<not> fst pinnedAlloc \<or> pageSizeInVecs < 1 then
                (let batchSize = nextHighestPowerOf2 (kNonPinnedPageSize div (s * d this))
                 in searchFromCpuPaged_unbuffered env n x numeric_type k batchSize 0 st)
              else if numeric_type = Float32
                then searchFromCpuPaged_dispatch env n pageSizeInVecs x numeric_type k st
              else if numeric_type = Float16
                then searchFromCpuPaged_dispatch env n pageSizeInVecs x numeric_type k st
              else if numeric_type = Int8
                then searchFromCpuPaged_dispatch env n pageSizeInVecs x numeric_type k st
              else Some (Failure UnsupportedEncoding, st)))"

subsection \<open>The public search operations\<close>

text \<open>
  \<open>xOnHost\<close> is \<open>getDeviceForAddress(x) == -1\<close>. The copies back to the caller's buffers
  are issued when nothing has thrown.
\<close>

definition copy_back :: "outcome \<times> 'r search_state \<Rightarrow> outcome \<times> 'r search_state" where
  "copy_back res =
     (case res of (r, out, tr) \<Rightarrow>
        if r = Success then (r, out, tr @ [FromDevice Distances, FromDevice Labels])
        else res)"

definition search ::
  "('a, 'v, 'r) collaborators \<Rightarrow> 'a GpuIndex_scheme \<Rightarrow> idx_t \<Rightarrow> 'v list \<Rightarrow> bool \<Rightarrow> NumericType
   \<Rightarrow> int \<Rightarrow> 'r search_state \<Rightarrow> (outcome \<times> 'r search_state) option" where
  "search env this n x xOnHost numeric_type k st =
     (if \<not> is_trained this then Some (Failure NotTrained, st)
      else if validateKSelect env k (should_use_cuvs env (config this)) \<noteq> Success
        then Some (validateKSelect env k (should_use_cuvs env (config this)), st)
      else if n = 0 \<or> k = 0 then Some (Success, st)
      else
        (let st1 = (fst st, snd st @ [ToDeviceTemporary Distances n, ToDeviceTemporary Labels n])
         in if xOnHost then
              (case get_numeric_type_size (otherTypeSize env) numeric_type of
                 Inl e \<Rightarrow> Some (Failure e, st1)
               | Inr s \<Rightarrow>
                   (let dataSize = to_size_t (n * d this * s)
                    in if dataSize \<ge> minPagedSize this
                       then map_option copy_back
                              (searchFromCpuPaged env this n x numeric_type k st1)
                       else Some (copy_back (searchNonPaged env n x numeric_type k 0 st1))))
            else Some (copy_back (searchNonPaged env n x numeric_type k 0 st1))))"

text \<open>
  \<open>assign\<close> checks the flag and \<open>k\<close> itself, then searches through the \<open>float\<close> overload
  into a throw-away distance tensor.
\<close>

definition assign ::
  "('a, 'v, 'r) collaborators \<Rightarrow> 'a GpuIndex_scheme \<Rightarrow> idx_t \<Rightarrow> 'v list \<Rightarrow> bool
   \<Rightarrow> int \<Rightarrow> 'r search_state \<Rightarrow> (outcome \<times> 'r search_state) option" where
  "assign env this n x xOnHost k st =
     (if \<not> is_trained this then Some (Failure NotTrained, st)
      else if validateKSelect env k (should_use_cuvs env (config this)) \<noteq> Success
        then Some (validateKSelect env k (should_use_cuvs env (config this)), st)
      else search env this n x xOnHost Float32 k st)"

subsection \<open>Reading a trace\<close>

text \<open>The implementation calls of a trace, in order: count, offset, identifiers.\<close>

fun addImpl_calls :: "event list \<Rightarrow> (idx_t \<times> idx_t \<times> idx_t list option) list" where
  "addImpl_calls [] = []"
| "addImpl_calls (AddImpl n x t ids # tr) = (n, x, ids) # addImpl_calls tr"
| "addImpl_calls (e # tr) = addImpl_calls tr"

text \<open>
  The call expected for the tile that starts at vector \<open>start\<close>: its size, its offset in
  the caller's array, and its slice of the identifiers.
\<close>

definition tile :: "idx_t \<Rightarrow> idx_t list option \<Rightarrow> idx_t \<Rightarrow> idx_t \<Rightarrow> idx_t
   \<Rightarrow> idx_t \<times> idx_t \<times> idx_t list option" where
  "tile x ids n tileSize start =
     (min tileSize (n - start), x + start,
      map_option (\<lambda>is. take (nat (min tileSize (n - start))) (drop (nat start) is)) ids)"

text \<open>
  Modelled from the spec: \<open>addImpl_\<close> is pure virtual here and its implementations are
  outside this file; nothing in this file writes \<open>ntotal\<close>. The spec: on success an
  insert increases the total count by the number of vectors inserted. For one call of
  the implementation, on \<open>m\<close> vectors, that is: a call that returns has added \<open>m\<close>.
\<close>

definition addImpl_counts :: "('a, 'v, 'r) collaborators \<Rightarrow> bool" where
  "addImpl_counts env =
     (\<forall>m x t ids this this'.
        addImpl env m x t ids this = (Success, this') \<longrightarrow> ntotal this' = ntotal this + m)"

text \<open>
  The tile size in the words of the spec: the least of \<open>n\<close>, the page threshold divided
  by \<open>d * s\<close> but at least one vector, and the search vector threshold. \<open>ceil_div\<close> is
  the rounded-up quotient.
\<close>

definition insert_tileSize :: "idx_t \<Rightarrow> int \<Rightarrow> int \<Rightarrow> idx_t" where
  "insert_tileSize n dims s = min (min n (max 1 (kAddPageSize div (dims * s)))) kSearchVecSize"

definition ceil_div :: "int \<Rightarrow> int \<Rightarrow> int" where
  "ceil_div n t = (n + t - 1) div t"

text \<open>The identifier arrays handed to the implementation, in call order.\<close>

definition supplied_ids :: "event list \<Rightarrow> idx_t list option list" where
  "supplied_ids tr = map (\<lambda>c. snd (snd c)) (addImpl_calls tr)"

subsection \<open>Example collaborators\<close>

text \<open>
  A small world to run the model in: an implementation that counts what it is given, a
  search implementation that answers each query by itself, a device of compute
  capability 6, 64 bytes of pinned memory.
\<close>

definition counting_addImpl ::
  "idx_t \<Rightarrow> idx_t \<Rightarrow> NumericType \<Rightarrow> idx_t list option \<Rightarrow> 'a GpuIndex_scheme
   \<Rightarrow> outcome \<times> 'a GpuIndex_scheme" where
  "counting_addImpl n x t ids this = (Success, this\<lparr>ntotal := ntotal this + n\<rparr>)"

definition example_env :: "(unit, int, int) collaborators" where
  "example_env =
     \<lparr>getDevicePropertiesMajor = (\<lambda>dev. 6),
      getMaxKSelection = (\<lambda>use. 2048),
      otherTypeSize = Some 1,
      getPinnedMemory = (True, 64),
      addImplRequiresIDs = (\<lambda>this. True),
      addImpl = counting_addImpl,
      searchImpl = (\<lambda>qs t k. map (\<lambda>q. 10 * q + k) qs)\<rparr>"

definition example_index :: GpuIndex where
  "example_index =
     \<lparr>d = 4, ntotal = 7, is_trained = True, metric_type = 1, metric_arg = 0,
      config = \<lparr>device = 0, use_cuvs = True\<rparr>, minPagedSize = 16\<rparr>"

definition wide_index :: GpuIndex where
  "wide_index = example_index\<lparr>d := 134217728\<rparr>"

definition untrained_index :: GpuIndex where
  "untrained_index = example_index\<lparr>is_trained := False\<rparr>"

subsection \<open>Reading the double-buffered loop\<close>

text \<open>
  The loop head at which the page that starts at \<open>a\<close> has been copied into the pinned
  buffer \<open>cur2BufIndex\<close> and waits for its transfer.
\<close>

definition at_head :: "idx_t \<Rightarrow> idx_t \<Rightarrow> idx_t \<Rightarrow> ('v, 'r) pipeline \<Rightarrow> bool" where
  "at_head n P a s \<longleftrightarrow>
     0 \<le> a \<and> a < n \<and> cur1 s = a + min P (n - a) \<and> cur2 s = a \<and> cur3 s \<le> a
     \<and> cur2BufIndex s < 2 \<and> cur3BufIndex s = cur2BufIndex s
     \<and> cur1BufIndex s = flip (cur2BufIndex s)
     \<and> length (bufPinned s) = 2 \<and> length (bufGpus s) = 2
     \<and> length (eventPinnedCopyDone s) = 2"

text \<open>
  What one iteration issues when the page at \<open>a\<close> waits in buffer \<open>b\<close>: the transfer of
  that page, the computation on it, and the copy-in of the next page, if there is one,
  into the other buffer.
\<close>

definition iteration_events :: "idx_t \<Rightarrow> idx_t \<Rightarrow> NumericType \<Rightarrow> int \<Rightarrow> idx_t \<Rightarrow> nat \<Rightarrow> event list" where
  "iteration_events n P t k a b =
     [PinnedToGpu a (min P (n - a)) b, SearchImpl (min P (n - a)) a t k]
     @ (if a + P < n then [HostToPinned (a + P) (min P (n - (a + P))) (flip b)] else [])"

text \<open>The page of the queries that starts at \<open>a\<close>.\<close>

definition page :: "idx_t \<Rightarrow> idx_t \<Rightarrow> 'v list \<Rightarrow> idx_t \<Rightarrow> 'v list" where
  "page n P x a = take (nat (min P (n - a))) (drop (nat a) x)"

text \<open>The state between the computation and the copy-in of such an iteration.\<close>

definition after_compute ::
  "('a, 'v, 'r) collaborators \<Rightarrow> idx_t \<Rightarrow> idx_t \<Rightarrow> NumericType \<Rightarrow> int \<Rightarrow> idx_t
   \<Rightarrow> ('v, 'r) pipeline \<Rightarrow> ('v, 'r) pipeline" where
  "after_compute env n P t k a s =
     s\<lparr>bufGpus := (bufGpus s)
            [cur2BufIndex s := overwrite (take (nat (min P (n - a))) (bufPinned s ! cur2BufIndex s))
                                (bufGpus s ! cur2BufIndex s)],
       eventPinnedCopyDone := (eventPinnedCopyDone s)[cur2BufIndex s := True],
       cur2 := a + min P (n - a),
       cur2BufIndex := flip (cur2BufIndex s),
       outRows := write_rows (outRows s) a
           (searchImpl env
              (take (nat (min P (n - a)))
                 (overwrite (take (nat (min P (n - a))) (bufPinned s ! cur2BufIndex s))
                            (bufGpus s ! cur2BufIndex s))) t k),
       passed := passed s @
           [take (nat (min P (n - a)))
              (overwrite (take (nat (min P (n - a))) (bufPinned s ! cur2BufIndex s))
                         (bufGpus s ! cur2BufIndex s))],
       eventGpuExecuteDone := (eventGpuExecuteDone s)[cur2BufIndex s := True],
       issued := issued s @ [PinnedToGpu a (min P (n - a)) (cur2BufIndex s),
                             SearchImpl (min P (n - a)) a t k],
       cur3BufIndex := flip (cur2BufIndex s),
       cur3 := a + min P (n - a)\<rparr>"

text \<open>
  The search implementation calls of a trace (count, first output row), and the query
  indices they cover, in call order.
\<close>

fun searchImpl_calls :: "event list \<Rightarrow> (idx_t \<times> idx_t) list" where
  "searchImpl_calls [] = []"
| "searchImpl_calls (SearchImpl n off t k # tr) = (n, off) # searchImpl_calls tr"
| "searchImpl_calls (e # tr) = searchImpl_calls tr"

definition searched :: "event list \<Rightarrow> idx_t list" where
  "searched tr =
     concat (map (\<lambda>(n, off). map (\<lambda>i. off + int i) [0 ..< nat n]) (searchImpl_calls tr))"

text \<open>The states in which \<open>while (cur3 < n)\<close> tests its condition.\<close>

inductive loop_head ::
  "('a, 'v, 'r) collaborators \<Rightarrow> idx_t \<Rightarrow> idx_t \<Rightarrow> 'v list \<Rightarrow> NumericType \<Rightarrow> int
   \<Rightarrow> ('v, 'r) pipeline \<Rightarrow> ('v, 'r) pipeline \<Rightarrow> bool"
  for env n P x t k s0 where
    first: "loop_head env n P x t k s0 s0"
  | again: "loop_head env n P x t k s0 s \<Longrightarrow> cur3 s < n \<Longrightarrow>
            pipeline_iteration env n P x t k s = (Success, s') \<Longrightarrow>
            loop_head env n P x t k s0 s'"

text \<open>The example world without pinned memory.\<close>

definition unpinned_env :: "(unit, int, int) collaborators" where
  "unpinned_env = example_env\<lparr>getPinnedMemory := (False, 0)\<rparr>"

text \<open>The example world on a device of compute capability 7.\<close>

definition eligible_env :: "(unit, int, int) collaborators" where
  "eligible_env = example_env\<lparr>getDevicePropertiesMajor := (\<lambda>dev. 7)\<rparr>"

section \<open>Theorems\<close>

subsection \<open>Metadata exchange\<close>

text \<open>
  C10. \<open>copyFrom\<close> sets the five metadata fields (dimensionality, metric type, metric
  argument, total count, trained flag) of the index from the mirror and leaves the rest
  of the index (configuration, paging threshold, any subclass part) as it was;
  \<open>copyTo\<close> writes the same five fields to the mirror and leaves the rest of the mirror
  as it was. Both are functions of the two objects alone: they have no access to the
  device trace. \<open>copyTo\<close> followed by \<open>copyFrom\<close> with the same mirror restores the
  metadata of the index, whatever was done to the index in between, and gives the index
  back when nothing was done.
\<close>

theorem copy_metadata_exchange:
  fixes this this' :: "'a GpuIndex_scheme" and index :: "'b Index_scheme"
  shows "metadata (copyFrom this index) = metadata index
       \<and> config (copyFrom this index) = config this
       \<and> minPagedSize (copyFrom this index) = minPagedSize this
       \<and> GpuIndex.more (copyFrom this index) = GpuIndex.more this
       \<and> metadata (copyTo this index) = metadata this
       \<and> Index.more (copyTo this index) = Index.more index
       \<and> metadata (copyFrom this' (copyTo this index)) = metadata this
       \<and> copyFrom this (copyTo this index) = this"
  by (simp add: copyFrom_def copyTo_def metadata_def)

subsection \<open>The tile loop of the insert path\<close>

lemma addImpl_calls_append: "addImpl_calls (a @ b) = addImpl_calls a @ addImpl_calls b"
  by (induction a rule: addImpl_calls.induct) simp_all

lemma addPage_supported:
  assumes "supported t"
  shows "addPage env m x t ids (g, tr) =
     (fst (addImpl env m x t (map_option (take (nat m)) ids) g),
      snd (addImpl env m x t (map_option (take (nat m)) ids) g),
      tr @ ToDeviceTemporary Vectors m #
        (case ids of None \<Rightarrow> [] | Some is \<Rightarrow> [ToDeviceTemporary Ids m]) @
        [AddImpl m x t (map_option (take (nat m)) ids)])"
  using assms
  by (auto simp: supported_def addPage_def addPage_dispatch_def Let_def split: option.splits prod.splits)

lemma addPage_unsupported:
  "\<not> supported t \<Longrightarrow> addPage env m x t ids st = (Failure UnsupportedEncoding, st)"
  by (simp add: supported_def addPage_def)

lemma addPaged_loop_done:
  "\<not> i < n \<Longrightarrow> addPaged_loop env ts n x t ids i st = Some (Success, st)"
  by (subst addPaged_loop.simps) simp

lemma addPaged_loop_step:
  "i < n \<Longrightarrow> addPaged_loop env ts n x t ids i st =
     (case addPage env (min ts (n - i)) (x + i) t (map_option (drop (nat i)) ids) st of
        (r, st') \<Rightarrow> if r = Success then addPaged_loop env ts n x t ids (i + ts) st'
                    else Some (r, st'))"
  by (subst addPaged_loop.simps) (simp add: Let_def)

lemma addPaged_loop_returns:
  assumes "0 < ts"
  shows "\<exists>res. addPaged_loop env ts n x t ids i st = Some res"
proof (induction "nat (n - i)" arbitrary: i st rule: less_induct)
  case less
  show ?case
  proof (cases "i < n")
    case False
    then show ?thesis by (simp add: addPaged_loop_done)
  next
    case True
    obtain r st' where p: "addPage env (min ts (n - i)) (x + i) t (map_option (drop (nat i)) ids) st = (r, st')"
      by (cases "addPage env (min ts (n - i)) (x + i) t (map_option (drop (nat i)) ids) st") auto
    have "nat (n - (i + ts)) < nat (n - i)" using True assms by linarith
    from less[OF this] obtain res where "addPaged_loop env ts n x t ids (i + ts) st' = Some res"
      by blast
    then show ?thesis using True p by (cases res) (auto simp: addPaged_loop_step)
  qed
qed

lemma tile_count_step:
  fixes n i ts :: int
  assumes "0 < ts" "i < n"
  shows "nat ((n - i + ts - 1) div ts) = Suc (nat ((n - (i + ts) + ts - 1) div ts))"
proof -
  have "(n - i + ts - 1) div ts = (n - (i + ts) + ts - 1 + ts) div ts" by (simp add: algebra_simps)
  also have "\<dots> = (n - (i + ts) + ts - 1) div ts + 1" using assms
    by (metis div_add_self2 less_irrefl)
  finally have e: "(n - i + ts - 1) div ts = (n - (i + ts) + ts - 1) div ts + 1" .
  have "0 \<le> (n - (i + ts) + ts - 1) div ts" using assms by (simp add: pos_imp_zdiv_nonneg_iff)
  then show ?thesis using e by simp
qed

lemma tile_count_done:
  fixes n i ts :: int
  assumes "0 < ts" "\<not> i < n"
  shows "nat ((n - i + ts - 1) div ts) = 0"
proof -
  have "n - i + ts - 1 < ts" using assms by simp
  then have "n - i + ts - 1 \<le> ts - 1" by simp
  then have "(n - i + ts - 1) div ts \<le> (ts - 1) div ts" using assms by (intro zdiv_mono1) simp_all
  moreover have "(ts - 1) div ts = 0" using assms by (simp add: div_pos_pos_trivial)
  ultimately show ?thesis by simp
qed

lemma addPaged_loop_calls:
  assumes "0 < ts" and "supported t"
  shows "addPaged_loop env ts n x t ids i (g, tr) = Some (Success, g', tr') \<Longrightarrow>
         addImpl_calls tr' = addImpl_calls tr @
           map (\<lambda>j. tile x ids n ts (i + int j * ts)) [0 ..< nat ((n - i + ts - 1) div ts)]"
proof (induction "nat (n - i)" arbitrary: i g tr rule: less_induct)
  case less
  show ?case
  proof (cases "i < n")
    case False
    then show ?thesis using less.prems assms(1)
      by (simp add: addPaged_loop_done tile_count_done)
  next
    case True
    let ?m = "min ts (n - i)"
    let ?ids = "map_option (take (nat ?m)) (map_option (drop (nat i)) ids)"
    obtain r g1 where a: "addImpl env ?m (x + i) t ?ids g = (r, g1)"
      by (cases "addImpl env ?m (x + i) t ?ids g") auto
    let ?tr1 = "tr @ ToDeviceTemporary Vectors ?m #
        (case map_option (drop (nat i)) ids of None \<Rightarrow> [] | Some is \<Rightarrow> [ToDeviceTemporary Ids ?m]) @
        [AddImpl ?m (x + i) t ?ids]"
    have p: "addPage env ?m (x + i) t (map_option (drop (nat i)) ids) (g, tr) = (r, g1, ?tr1)"
      using a by (simp add: addPage_supported[OF assms(2)])
    have r: "r = Success" and rest: "addPaged_loop env ts n x t ids (i + ts) (g1, ?tr1) = Some (Success, g', tr')"
      using less.prems True p by (auto simp: addPaged_loop_step split: if_splits)
    have "nat (n - (i + ts)) < nat (n - i)" using True assms(1) by linarith
    from less.hyps[OF this rest]
    have ih: "addImpl_calls tr' = addImpl_calls ?tr1 @
           map (\<lambda>j. tile x ids n ts (i + ts + int j * ts)) [0 ..< nat ((n - (i + ts) + ts - 1) div ts)]" .
    have c1: "addImpl_calls ?tr1 = addImpl_calls tr @ [tile x ids n ts i]"
      by (cases ids) (simp_all add: addImpl_calls_append tile_def)
    have sh: "\<And>j. i + ts + int j * ts = i + int (Suc j) * ts" by (simp add: algebra_simps)
    show ?thesis
      unfolding ih c1 tile_count_step[OF assms(1) True] map_upt_Suc sh by simp
  qed
qed

lemma addPaged_loop_ntotal:
  assumes "0 < ts" and "supported t" and "addImpl_counts env"
  shows "addPaged_loop env ts n x t ids i (g, tr) = Some (Success, g', tr') \<Longrightarrow>
         ntotal g' = ntotal g + max 0 (n - i)"
proof (induction "nat (n - i)" arbitrary: i g tr rule: less_induct)
  case less
  show ?case
  proof (cases "i < n")
    case False
    then show ?thesis using less.prems by (simp add: addPaged_loop_done)
  next
    case True
    let ?m = "min ts (n - i)"
    let ?ids = "map_option (take (nat ?m)) (map_option (drop (nat i)) ids)"
    obtain r g1 where a: "addImpl env ?m (x + i) t ?ids g = (r, g1)"
      by (cases "addImpl env ?m (x + i) t ?ids g") auto
    obtain tr1 where p: "addPage env ?m (x + i) t (map_option (drop (nat i)) ids) (g, tr) = (r, g1, tr1)"
      using a by (simp add: addPage_supported[OF assms(2)])
    have r: "r = Success" and rest: "addPaged_loop env ts n x t ids (i + ts) (g1, tr1) = Some (Success, g', tr')"
      using less.prems True p by (auto simp: addPaged_loop_step split: if_splits)
    have n1: "ntotal g1 = ntotal g + ?m"
      using assms(3) a r unfolding addImpl_counts_def by blast
    have "nat (n - (i + ts)) < nat (n - i)" using True assms(1) by linarith
    from less.hyps[OF this rest] have "ntotal g' = ntotal g1 + max 0 (n - (i + ts))" .
    then show ?thesis using n1 True assms(1) by (simp add: min_def max_def)
  qed
qed

lemma to_idx_t_to_size_t: "0 \<le> v \<Longrightarrow> v < 2 ^ 63 \<Longrightarrow> to_idx_t (to_size_t v) = v"
  by (simp add: to_idx_t_def to_size_t_def)

lemma ceil_div_ceiling:
  assumes "0 < t"
  shows "ceil_div n t = \<lceil>real_of_int n / real_of_int t\<rceil>"
proof -
  define a where "a = n + t - 1"
  define z where "z = a div t"
  have dm: "z * t + a mod t = a" unfolding z_def by (rule div_mult_mod_eq)
  have m0: "0 \<le> a mod t" and m1: "a mod t < t" using assms by simp_all
  have lo: "(z - 1) * t < n" using dm m0 unfolding a_def by (simp add: algebra_simps)
  have hi: "n \<le> z * t" using dm m1 unfolding a_def by (simp add: algebra_simps)
  have tpos: "0 < real_of_int t" using assms by simp
  have "real_of_int (z - 1) * real_of_int t < real_of_int n"
    using lo by (metis of_int_less_iff of_int_mult)
  then have l: "real_of_int z - 1 < real_of_int n / real_of_int t"
    using tpos by (simp add: pos_less_divide_eq)
  have "real_of_int n \<le> real_of_int z * real_of_int t"
    using hi by (metis of_int_le_iff of_int_mult)
  then have h: "real_of_int n / real_of_int t \<le> real_of_int z"
    using tpos by (simp add: pos_divide_le_eq)
  have "\<lceil>real_of_int n / real_of_int t\<rceil> = z" using l h by (rule ceiling_unique)
  then show ?thesis by (simp add: ceil_div_def z_def a_def)
qed

lemma insert_tileSize_pos: "1 \<le> n \<Longrightarrow> 1 \<le> insert_tileSize n dims s"
  by (simp add: insert_tileSize_def kSearchVecSize_def)

lemma concat_slices:
  assumes "0 < ts"
  shows "0 \<le> i \<Longrightarrow>
     concat (map (\<lambda>j. take (nat (min ts (n - (i + int j * ts)))) (drop (nat (i + int j * ts)) is))
               [0 ..< nat ((n - i + ts - 1) div ts)])
     = take (nat (n - i)) (drop (nat i) is)"
proof (induction "nat (n - i)" arbitrary: i rule: less_induct)
  case less
  show ?case
  proof (cases "i < n")
    case False
    then show ?thesis using assms by (simp add: tile_count_done)
  next
    case True
    have "nat (n - (i + ts)) < nat (n - i)" using True assms(1) by linarith
    from less.hyps[OF this] less.prems assms
    have ih: "concat (map (\<lambda>j. take (nat (min ts (n - (i + ts + int j * ts)))) (drop (nat (i + ts + int j * ts)) is))
               [0 ..< nat ((n - (i + ts) + ts - 1) div ts)])
       = take (nat (n - (i + ts))) (drop (nat (i + ts)) is)" by simp
    have sh: "\<And>j. i + ts + int j * ts = i + int (Suc j) * ts" by (simp add: algebra_simps)
    have "take (nat (min ts (n - i))) (drop (nat i) is) @ take (nat (n - (i + ts))) (drop (nat (i + ts)) is)
        = take (nat (n - i)) (drop (nat i) is)"
    proof (cases "ts \<le> n - i")
      case True
      have e1: "nat (n - i) = nat ts + nat (n - (i + ts))" using True assms by linarith
      have e2: "nat (i + ts) = nat ts + nat i" using less.prems assms by linarith
      show ?thesis using True unfolding e1 e2 by (simp add: take_add min_def flip: drop_drop)
    next
      case False
      then show ?thesis by (simp add: min_def)
    qed
    then show ?thesis
      unfolding tile_count_step[OF assms(1) True] map_upt_Suc
      using ih unfolding sh by simp
  qed
qed

lemma tile_sizes:
  assumes "0 < ts" and "1 \<le> n"
  shows "map (\<lambda>j. min ts (n - int j * ts)) [0 ..< nat (ceil_div n ts)]
       = replicate (nat (ceil_div n ts) - 1) ts @ [if n mod ts = 0 then ts else n mod ts]"
proof -
  define a where "a = n + ts - 1"
  define z where "z = ceil_div n ts"
  have zdef: "z = a div ts" by (simp add: z_def ceil_div_def a_def)
  have dm: "z * ts + a mod ts = a" unfolding zdef by (rule div_mult_mod_eq)
  have m0: "0 \<le> a mod ts" and m1: "a mod ts < ts" using assms by simp_all
  have lo: "(z - 1) * ts < n" using dm m0 unfolding a_def by (simp add: algebra_simps)
  have hi: "n \<le> z * ts" using dm m1 unfolding a_def by (simp add: algebra_simps)
  have zpos: "1 \<le> z"
  proof (rule ccontr)
    assume "\<not> 1 \<le> z"
    then have "z \<le> 0" by simp
    then have "z * ts \<le> 0" using assms(1) by (simp add: mult_le_0_iff)
    then show False using hi assms(2) by simp
  qed
  have lastsz: "n - (z - 1) * ts = (if n mod ts = 0 then ts else n mod ts)"
  proof -
    have r1: "0 < n - (z - 1) * ts" using lo by simp
    have r2: "n - (z - 1) * ts \<le> ts" using hi by (simp add: algebra_simps)
    show ?thesis
    proof (cases "n - (z - 1) * ts = ts")
      case True
      then have "n = z * ts" by (simp add: algebra_simps)
      then show ?thesis using True by simp
    next
      case False
      then have lt: "n - (z - 1) * ts < ts" using r2 by simp
      have "n = ts * (z - 1) + (n - (z - 1) * ts)" by (simp add: algebra_simps)
      then have "n mod ts = n - (z - 1) * ts"
        using r1 lt by (intro int_mod_pos_eq[where q = "z - 1"]) simp_all
      then show ?thesis using r1 by simp
    qed
  qed
  show ?thesis
  proof (rule nth_equalityI)
    show "length (map (\<lambda>j. min ts (n - int j * ts)) [0 ..< nat (ceil_div n ts)]) =
          length (replicate (nat (ceil_div n ts) - 1) ts @ [if n mod ts = 0 then ts else n mod ts])"
      using zpos by (simp add: z_def)
  next
    fix j assume "j < length (map (\<lambda>j. min ts (n - int j * ts)) [0 ..< nat (ceil_div n ts)])"
    then have j: "int j < z" using zpos by (simp add: z_def)
    show "map (\<lambda>j. min ts (n - int j * ts)) [0 ..< nat (ceil_div n ts)] ! j =
          (replicate (nat (ceil_div n ts) - 1) ts @ [if n mod ts = 0 then ts else n mod ts]) ! j"
    proof (cases "int j < z - 1")
      case True
      then have "(int j + 1) * ts \<le> (z - 1) * ts" using assms(1) by (intro mult_right_mono) simp_all
      then have "ts \<le> n - int j * ts" using lo by (simp add: algebra_simps)
      moreover have "j < nat (ceil_div n ts) - 1" using True by (simp add: z_def)
      moreover have "j < nat (ceil_div n ts)" using j by (simp add: z_def)
      ultimately show ?thesis by (simp add: nth_append)
    next
      case False
      then have e: "int j = z - 1" using j by simp
      then have jn: "j = nat (ceil_div n ts) - 1" using zpos by (simp add: z_def)
      have "n - (z - 1) * ts \<le> ts" using hi by (simp add: algebra_simps)
      then have "min ts (n - int j * ts) = n - (z - 1) * ts" unfolding e by simp
      moreover have "j < nat (ceil_div n ts)" using j by (simp add: z_def)
      ultimately show ?thesis using lastsz jn by (simp add: nth_append)
    qed
  qed
qed

lemma addPaged_supported:
  "1 \<le> n \<Longrightarrow> supported t \<Longrightarrow>
   addPaged env n x t ids st = addPaged_dispatch env (sizeof_data_t t) n x t ids st"
  by (auto simp: addPaged_def supported_def)

lemma addPaged_unsupported:
  "1 \<le> n \<Longrightarrow> \<not> supported t \<Longrightarrow> addPaged env n x t ids st = Some (Failure UnsupportedEncoding, st)"
  by (auto simp: addPaged_def supported_def)

lemma addPaged_dispatch_tiled:
  assumes "1 \<le> n" "0 < d g" "0 < s" "n * d g * s < 2 ^ 63"
    and "\<not> should_use_cuvs env (config g)"
    and "kAddPageSize < n * d g * s \<or> kAddVecSize < n"
  shows "addPaged_dispatch env s n x t ids (g, tr) =
         addPaged_loop env (insert_tileSize n (d g) s) n x t ids 0 (g, tr)"
proof -
  have "0 \<le> n * d g * s" using assms(1-3) by simp
  then have "to_idx_t (to_size_t (n * d g * s)) = n * d g * s"
    using assms(4) by (rule to_idx_t_to_size_t)
  then show ?thesis using assms(5,6)
    by (simp add: addPaged_dispatch_def insert_tileSize_def Let_def max.commute)
qed

lemma addPaged_dispatch_untiled:
  "should_use_cuvs env (config g) \<Longrightarrow>
   addPaged_dispatch env s n x t ids (g, tr) = Some (addPage env n x t ids (g, tr))"
  by (simp add: addPaged_dispatch_def Let_def)

lemma addPaged_dispatch_cases:
  assumes "1 \<le> n"
  shows "(\<exists>ts. 0 < ts \<and> addPaged_dispatch env s n x t ids (g, tr) =
                  addPaged_loop env ts n x t ids 0 (g, tr))
       \<or> addPaged_dispatch env s n x t ids (g, tr) = Some (addPage env n x t ids (g, tr))"
proof (cases "\<not> should_use_cuvs env (config g)
               \<and> (to_idx_t (to_size_t (n * d g * s)) > kAddPageSize \<or> n > kAddVecSize)")
  case True
  let ?ts = "min (min n (max (kAddPageSize div (d g * s)) 1)) kSearchVecSize"
  have "0 < ?ts"
    using assms by (simp add: kSearchVecSize_def)
  moreover have "addPaged_dispatch env s n x t ids (g, tr) = addPaged_loop env ?ts n x t ids 0 (g, tr)"
    using True by (simp add: addPaged_dispatch_def Let_def)
  ultimately show ?thesis by blast
next
  case False
  then show ?thesis by (auto simp: addPaged_dispatch_def Let_def)
qed

lemma addPage_calls:
  "supported t \<Longrightarrow> addPage env m x t ids (g, tr) = (r, g', tr') \<Longrightarrow>
   addImpl_calls tr' = addImpl_calls tr @ [(m, x, map_option (take (nat m)) ids)]"
  by (cases ids) (auto simp: addPage_supported addImpl_calls_append)

lemma addPage_ntotal:
  "supported t \<Longrightarrow> addImpl_counts env \<Longrightarrow> addPage env m x t ids (g, tr) = (Success, g', tr') \<Longrightarrow>
   ntotal g' = ntotal g + m"
  unfolding addImpl_counts_def
  by (auto simp: addPage_supported) (metis prod.collapse)

lemma addPaged_ntotal:
  assumes "addImpl_counts env" and "1 \<le> n"
    and "addPaged env n x t ids (g, tr) = Some (Success, g', tr')"
  shows "ntotal g' = ntotal g + n"
proof -
  have sup: "supported t" using assms(2,3) by (cases "supported t") (auto simp: addPaged_unsupported)
  then have disp: "addPaged_dispatch env (sizeof_data_t t) n x t ids (g, tr) = Some (Success, g', tr')"
    using assms(2,3) by (simp add: addPaged_supported)
  from addPaged_dispatch_cases[OF assms(2), of env "sizeof_data_t t" x t ids g tr]
  show ?thesis
  proof
    assume "\<exists>ts. 0 < ts \<and> addPaged_dispatch env (sizeof_data_t t) n x t ids (g, tr) =
                  addPaged_loop env ts n x t ids 0 (g, tr)"
    then obtain ts where ts: "0 < ts" "addPaged_loop env ts n x t ids 0 (g, tr) = Some (Success, g', tr')"
      using disp by auto
    from addPaged_loop_ntotal[OF ts(1) sup assms(1) ts(2)] assms(2) show ?thesis by simp
  next
    assume "addPaged_dispatch env (sizeof_data_t t) n x t ids (g, tr) = Some (addPage env n x t ids (g, tr))"
    then have "addPage env n x t ids (g, tr) = (Success, g', tr')" using disp by simp
    then show ?thesis using sup assms(1) by (rule addPage_ntotal[rotated 2])
  qed
qed

lemma addPaged_ids:
  assumes "1 \<le> n"
    and "addPaged env n x t (Some is) (g, tr) = Some (Success, g', tr')"
  shows "\<exists>slices. supplied_ids tr' = supplied_ids tr @ map Some slices
                 \<and> concat slices = take (nat n) is"
proof -
  have sup: "supported t" using assms by (cases "supported t") (auto simp: addPaged_unsupported)
  then have disp: "addPaged_dispatch env (sizeof_data_t t) n x t (Some is) (g, tr) = Some (Success, g', tr')"
    using assms by (simp add: addPaged_supported)
  from addPaged_dispatch_cases[OF assms(1), of env "sizeof_data_t t" x t "Some is" g tr]
  show ?thesis
  proof
    assume "\<exists>ts. 0 < ts \<and> addPaged_dispatch env (sizeof_data_t t) n x t (Some is) (g, tr) =
                  addPaged_loop env ts n x t (Some is) 0 (g, tr)"
    then obtain ts where ts: "0 < ts" "addPaged_loop env ts n x t (Some is) 0 (g, tr) = Some (Success, g', tr')"
      using disp by auto
    let ?sl = "map (\<lambda>j. take (nat (min ts (n - (0 + int j * ts)))) (drop (nat (0 + int j * ts)) is))
               [0 ..< nat ((n - 0 + ts - 1) div ts)]"
    from addPaged_loop_calls[OF ts(1) sup ts(2)]
    have "supplied_ids tr' = supplied_ids tr @ map Some ?sl"
      by (simp add: supplied_ids_def tile_def comp_def)
    moreover have "concat ?sl = take (nat n) is"
      using concat_slices[OF ts(1), of 0 n "is"] by simp
    ultimately show ?thesis by blast
  next
    assume "addPaged_dispatch env (sizeof_data_t t) n x t (Some is) (g, tr) = Some (addPage env n x t (Some is) (g, tr))"
    then have "addPage env n x t (Some is) (g, tr) = (Success, g', tr')" using disp by simp
    from addPage_calls[OF sup this]
    have "supplied_ids tr' = supplied_ids tr @ map Some [take (nat n) is]"
      by (simp add: supplied_ids_def)
    moreover have "concat [take (nat n) is] = take (nat n) is" by simp
    ultimately show ?thesis by blast
  qed
qed

subsection \<open>Tiled insert\<close>

text \<open>
  C3. An insert of \<open>n \<ge> 1\<close> vectors of a supported encoding with element size \<open>s\<close>, on an
  index of dimensionality \<open>d > 0\<close> and a byte size \<open>n * d * s\<close> that an \<open>idx_t\<close> holds.
  If the alternative backend is not eligible and \<open>n * d * s\<close> exceeds \<open>kAddPageSize\<close> or
  \<open>n\<close> exceeds \<open>kAddVecSize\<close>, then \<open>addPaged_\<close> returns, and when no tile has thrown
  the implementation calls it has added are exactly those of the tiles of size
  \<open>tileSize = min(n, max(1, kAddPageSize / (d * s)), kSearchVecSize)\<close>, in order: their
  number is the ceiling of \<open>n / tileSize\<close>, all but the last have \<open>tileSize\<close> vectors, and
  the last has \<open>n mod tileSize\<close>, or \<open>tileSize\<close> when that is zero. If the backend is
  eligible, \<open>addPaged_\<close> is one \<open>addPage_\<close> on the whole batch, with one implementation
  call on \<open>n\<close> vectors. The backend is eligible when the compute capability major version
  of the device is at least 7 and the backend is requested.
\<close>

theorem insert_tiling:
  assumes "1 \<le> n" and "supported t" and "0 < d this"
    and "n * d this * sizeof_data_t t < 2 ^ 63"
  shows "(\<not> should_use_cuvs env (config this)
          \<and> (kAddPageSize < n * d this * sizeof_data_t t \<or> kAddVecSize < n) \<longrightarrow>
          (\<exists>res. addPaged env n x t ids (this, tr) = Some res) \<and>
          (\<forall>this' tr'. addPaged env n x t ids (this, tr) = Some (Success, this', tr') \<longrightarrow>
             (let tileSize = insert_tileSize n (d this) (sizeof_data_t t);
                  new = drop (length (addImpl_calls tr)) (addImpl_calls tr')
              in addImpl_calls tr' = addImpl_calls tr @ new
               \<and> new = map (\<lambda>j. tile x ids n tileSize (int j * tileSize))
                          [0 ..< nat (ceil_div n tileSize)]
               \<and> int (length new) = \<lceil>real_of_int n / real_of_int tileSize\<rceil>
               \<and> map fst new = replicate (length new - 1) tileSize
                                 @ [if n mod tileSize = 0 then tileSize else n mod tileSize])))
       \<and> (should_use_cuvs env (config this) \<longrightarrow>
            addPaged env n x t ids (this, tr) = Some (addPage env n x t ids (this, tr))
          \<and> addImpl_calls (snd (snd (addPage env n x t ids (this, tr))))
              = addImpl_calls tr @ [(n, x, map_option (take (nat n)) ids)])
       \<and> (should_use_cuvs env (config this) \<longleftrightarrow>
            7 \<le> getDevicePropertiesMajor env (device (config this)) \<and> use_cuvs (config this))"
proof (intro conjI impI allI)
  assume c: "\<not> should_use_cuvs env (config this)
          \<and> (kAddPageSize < n * d this * sizeof_data_t t \<or> kAddVecSize < n)"
  let ?s = "sizeof_data_t t"
  let ?ts = "insert_tileSize n (d this) ?s"
  have spos: "0 < ?s" using assms(2) by (auto simp: supported_def)
  have tspos: "0 < ?ts" using insert_tileSize_pos[OF assms(1), of "d this" ?s] by simp
  have run: "addPaged env n x t ids (this, tr) = addPaged_loop env ?ts n x t ids 0 (this, tr)"
    using c addPaged_dispatch_tiled[OF assms(1,3) spos assms(4), of env x t ids tr]
    by (simp add: addPaged_supported[OF assms(1,2)])
  show "\<exists>res. addPaged env n x t ids (this, tr) = Some res"
    unfolding run by (rule addPaged_loop_returns[OF tspos])
  fix this' tr'
  assume ok: "addPaged env n x t ids (this, tr) = Some (Success, this', tr')"
  let ?new = "map (\<lambda>j. tile x ids n ?ts (int j * ?ts)) [0 ..< nat (ceil_div n ?ts)]"
  have calls: "addImpl_calls tr' = addImpl_calls tr @ ?new"
    using addPaged_loop_calls[OF tspos assms(2), of env n x ids 0 this tr this' tr'] ok
    unfolding run by (simp add: ceil_div_def)
  then have new: "drop (length (addImpl_calls tr)) (addImpl_calls tr') = ?new" by simp
  have cpos: "0 \<le> ceil_div n ?ts"
    using tspos assms(1) by (simp add: ceil_div_def pos_imp_zdiv_nonneg_iff)
  have len: "int (length ?new) = \<lceil>real_of_int n / real_of_int ?ts\<rceil>"
    using cpos by (simp add: ceil_div_ceiling[OF tspos])
  have sizes: "map fst ?new = replicate (length ?new - 1) ?ts
                 @ [if n mod ?ts = 0 then ?ts else n mod ?ts]"
    using tile_sizes[OF tspos assms(1)] by (simp add: tile_def comp_def)
  show "let tileSize = insert_tileSize n (d this) (sizeof_data_t t);
            new = drop (length (addImpl_calls tr)) (addImpl_calls tr')
        in addImpl_calls tr' = addImpl_calls tr @ new
         \<and> new = map (\<lambda>j. tile x ids n tileSize (int j * tileSize))
                    [0 ..< nat (ceil_div n tileSize)]
         \<and> int (length new) = \<lceil>real_of_int n / real_of_int tileSize\<rceil>
         \<and> map fst new = replicate (length new - 1) tileSize
                           @ [if n mod tileSize = 0 then tileSize else n mod tileSize]"
    unfolding Let_def new using calls len sizes by blast
next
  assume e: "should_use_cuvs env (config this)"
  show "addPaged env n x t ids (this, tr) = Some (addPage env n x t ids (this, tr))"
    using e by (simp add: addPaged_supported[OF assms(1,2)] addPaged_dispatch_untiled)
  show "addImpl_calls (snd (snd (addPage env n x t ids (this, tr))))
              = addImpl_calls tr @ [(n, x, map_option (take (nat n)) ids)]"
    by (rule addPage_calls[OF assms(2), of env n x ids this tr
          "fst (addPage env n x t ids (this, tr))" "fst (snd (addPage env n x t ids (this, tr)))"]) simp
next
  show "should_use_cuvs env (config this) \<longleftrightarrow>
          7 \<le> getDevicePropertiesMajor env (device (config this)) \<and> use_cuvs (config this)"
    by (auto simp: should_use_cuvs_def)
qed

lemma wide_run:
  "addPaged example_env 3 0 Float32 (Some [10, 11, 12]) (wide_index, []) =
     Some (Success, wide_index\<lparr>ntotal := 10\<rparr>,
       [ToDeviceTemporary Vectors 1, ToDeviceTemporary Ids 1, AddImpl 1 0 Float32 (Some [10]),
        ToDeviceTemporary Vectors 1, ToDeviceTemporary Ids 1, AddImpl 1 1 Float32 (Some [11]),
        ToDeviceTemporary Vectors 1, ToDeviceTemporary Ids 1, AddImpl 1 2 Float32 (Some [12])])"
  by code_simp

lemma wide_eligible_run:
  "addPage eligible_env 3 0 Float32 (Some [10, 11, 12]) (wide_index, []) =
     (Success, wide_index\<lparr>ntotal := 10\<rparr>,
       [ToDeviceTemporary Vectors 3, ToDeviceTemporary Ids 3,
        AddImpl 3 0 Float32 (Some [10, 11, 12])])"
  by code_simp

theorem insert_tiling_witness:
  "1 \<le> (3::int) \<and> supported Float32 \<and> 0 < d wide_index
   \<and> 3 * d wide_index * sizeof_data_t Float32 < 2 ^ 63
   \<and> \<not> should_use_cuvs example_env (config wide_index)
   \<and> kAddPageSize < 3 * d wide_index * sizeof_data_t Float32
   \<and> insert_tileSize 3 (d wide_index) (sizeof_data_t Float32) = 1
   \<and> (\<exists>this' tr'. addPaged example_env 3 0 Float32 (Some [10, 11, 12]) (wide_index, [])
                      = Some (Success, this', tr')
          \<and> addImpl_calls tr' = [(1, 0, Some [10]), (1, 1, Some [11]), (1, 2, Some [12])]
          \<and> map fst (addImpl_calls tr') = replicate 2 1 @ [1])
   \<and> should_use_cuvs eligible_env (config wide_index)
   \<and> addPaged eligible_env 3 0 Float32 (Some [10, 11, 12]) (wide_index, [])
       = Some (Success, wide_index\<lparr>ntotal := 10\<rparr>,
               [ToDeviceTemporary Vectors 3, ToDeviceTemporary Ids 3,
                AddImpl 3 0 Float32 (Some [10, 11, 12])])"
proof -
  have h1: "1 \<le> (3::int)" by simp
  have h2: "supported Float32" by (simp add: supported_def)
  have h3: "0 < d wide_index" by (simp add: wide_index_def example_index_def)
  have h4: "3 * d wide_index * sizeof_data_t Float32 < 2 ^ 63"
    by (simp add: wide_index_def example_index_def)
  have c1: "\<not> should_use_cuvs example_env (config wide_index)"
    by (simp add: should_use_cuvs_def example_env_def)
  have c2: "kAddPageSize < 3 * d wide_index * sizeof_data_t Float32"
    by (simp add: wide_index_def example_index_def kAddPageSize_def)
  have ts: "insert_tileSize 3 (d wide_index) (sizeof_data_t Float32) = 1"
    by (simp add: insert_tileSize_def wide_index_def example_index_def kAddPageSize_def
                  kSearchVecSize_def)
  obtain this' tr' where run:
    "addPaged example_env 3 0 Float32 (Some [10, 11, 12]) (wide_index, []) = Some (Success, this', tr')"
    using wide_run by blast
  from insert_tiling[OF h1 h2 h3 h4, of example_env 0 "Some [10, 11, 12]" "[]"] c1 c2 run
  have "addImpl_calls tr' = map (\<lambda>j. tile 0 (Some [10, 11, 12]) 3 1 (int j * 1)) [0 ..< nat (ceil_div 3 1)]"
    unfolding ts Let_def by simp
  then have e: "addImpl_calls tr' = [(1, 0, Some [10]), (1, 1, Some [11]), (1, 2, Some [12])]"
    by (simp add: ceil_div_def tile_def upt_rec)
  then have m: "map fst (addImpl_calls tr') = replicate 2 1 @ [1]"
    by (simp add: numeral_2_eq_2)
  have tiled: "\<exists>this' tr'. addPaged example_env 3 0 Float32 (Some [10, 11, 12]) (wide_index, [])
                      = Some (Success, this', tr')
          \<and> addImpl_calls tr' = [(1, 0, Some [10]), (1, 1, Some [11]), (1, 2, Some [12])]
          \<and> map fst (addImpl_calls tr') = replicate 2 1 @ [1]"
    using run e m by blast
  have c3: "should_use_cuvs eligible_env (config wide_index)"
    by (simp add: should_use_cuvs_def eligible_env_def example_env_def wide_index_def
          example_index_def)
  from insert_tiling[OF h1 h2 h3 h4, of eligible_env 0 "Some [10, 11, 12]" "[]"] c3
  have "addPaged eligible_env 3 0 Float32 (Some [10, 11, 12]) (wide_index, [])
        = Some (addPage eligible_env 3 0 Float32 (Some [10, 11, 12]) (wide_index, []))"
    by simp
  then have untiled: "addPaged eligible_env 3 0 Float32 (Some [10, 11, 12]) (wide_index, [])
       = Some (Success, wide_index\<lparr>ntotal := 10\<rparr>,
               [ToDeviceTemporary Vectors 3, ToDeviceTemporary Ids 3,
                AddImpl 3 0 Float32 (Some [10, 11, 12])])"
    unfolding wide_eligible_run .
  show ?thesis using h1 h2 h3 h4 c1 c2 ts tiled c3 untiled by (intro conjI)
qed

subsection \<open>The total count\<close>

lemma example_counts: "addImpl_counts example_env"
  by (simp add: addImpl_counts_def example_env_def counting_addImpl_def)

lemma example_insert_run:
  "add_with_ids example_env 3 Float32 None (example_index, []) =
     Some (Success, example_index\<lparr>ntotal := 10\<rparr>,
       [ToDeviceTemporary Vectors 3, ToDeviceTemporary Ids 3, AddImpl 3 0 Float32 (Some [7, 8, 9])])"
  by code_simp

text \<open>
  C8. Given that every call of the implementation that returns adds the number of
  vectors it was handed to \<open>ntotal\<close>, an insert of \<open>n \<ge> 0\<close> vectors that returns without a
  throw was made on a trained index and leaves \<open>ntotal\<close> larger by exactly \<open>n\<close>, tiled or
  not.
\<close>

theorem insert_adds_to_ntotal:
  assumes "addImpl_counts env" and "0 \<le> n"
    and "add_with_ids env n t ids (this, tr) = Some (Success, this', tr')"
  shows "is_trained this \<and> ntotal this' = ntotal this + n"
proof -
  have tr: "is_trained this" using assms(3) by (auto simp: add_with_ids_def split: if_splits)
  show ?thesis
  proof (cases "n = 0")
    case True
    then show ?thesis using assms(3) tr by (simp add: add_with_ids_def)
  next
    case False
    then have n1: "1 \<le> n" using assms(2) by simp
    obtain ids' where "addPaged env n 0 t ids' (this, tr) = Some (Success, this', tr')"
      using assms(3) tr False n1 by (auto simp: add_with_ids_def split: if_splits)
    from addPaged_ntotal[OF assms(1) n1 this] tr show ?thesis by simp
  qed
qed

theorem insert_adds_to_ntotal_witness:
  "addImpl_counts example_env \<and> 0 \<le> (3::int)
   \<and> (\<exists>this' tr'. add_with_ids example_env 3 Float32 None (example_index, [])
                      = Some (Success, this', tr')
          \<and> ntotal example_index = 7 \<and> ntotal this' = 10)"
proof -
  have h2: "0 \<le> (3::int)" by simp
  obtain this' tr' where run:
    "add_with_ids example_env 3 Float32 None (example_index, []) = Some (Success, this', tr')"
    using example_insert_run by blast
  from insert_adds_to_ntotal[OF example_counts h2 run]
  have "ntotal this' = 10" by (simp add: example_index_def)
  moreover have "ntotal example_index = 7" by (simp add: example_index_def)
  ultimately show ?thesis using example_counts h2 run by blast
qed

subsection \<open>Identifiers\<close>

lemma addPaged_returns: "\<exists>res. addPaged env n x t ids st = Some res"
proof (cases "1 \<le> n")
  case False
  then show ?thesis by (simp add: addPaged_def)
next
  case True
  obtain g tr where st: "st = (g, tr)" by (cases st)
  show ?thesis
  proof (cases "supported t")
    case False
    then show ?thesis using True by (simp add: addPaged_unsupported)
  next
    case sup: True
    from addPaged_dispatch_cases[OF True, of env "sizeof_data_t t" x t ids g tr]
    show ?thesis
    proof
      assume "\<exists>ts. 0 < ts \<and> addPaged_dispatch env (sizeof_data_t t) n x t ids (g, tr) =
                  addPaged_loop env ts n x t ids 0 (g, tr)"
      then obtain ts where ts: "0 < ts"
        and e: "addPaged_dispatch env (sizeof_data_t t) n x t ids (g, tr) =
                  addPaged_loop env ts n x t ids 0 (g, tr)" by blast
      show ?thesis unfolding st addPaged_supported[OF True sup] e
        by (rule addPaged_loop_returns[OF ts])
    next
      assume e: "addPaged_dispatch env (sizeof_data_t t) n x t ids (g, tr)
                 = Some (addPage env n x t ids (g, tr))"
      show ?thesis unfolding st addPaged_supported[OF True sup] e by blast
    qed
  qed
qed

lemma add_with_ids_returns: "\<exists>res. add_with_ids env n t ids st = Some res"
proof -
  obtain g tr where st: "st = (g, tr)" by (cases st)
  show ?thesis
    unfolding st add_with_ids_def
    using addPaged_returns[of env n 0 t "Some (generatedIds (ntotal g) n)" "(g, tr)"]
          addPaged_returns[of env n 0 t ids "(g, tr)"]
    by auto
qed

lemma addPaged_loop_succeeds:
  assumes "0 < ts" and "supported t"
    and ok: "\<And>m xo is g. fst (addImpl env m xo t is g) = Success"
  shows "\<exists>g' tr'. addPaged_loop env ts n x t ids i (g, tr) = Some (Success, g', tr')"
proof (induction "nat (n - i)" arbitrary: i g tr rule: less_induct)
  case less
  show ?case
  proof (cases "i < n")
    case False
    then show ?thesis by (simp add: addPaged_loop_done)
  next
    case True
    have m: "nat (n - (i + ts)) < nat (n - i)" using True assms(1) by linarith
    show ?thesis
      unfolding addPaged_loop_step[OF True] addPage_supported[OF assms(2)]
      using less[OF m] by (simp add: ok)
  qed
qed

lemma addPaged_succeeds:
  assumes "supported t" and ok: "\<And>m xo is g. fst (addImpl env m xo t is g) = Success"
  shows "\<exists>g' tr'. addPaged env n x t ids (g, tr) = Some (Success, g', tr')"
proof (cases "1 \<le> n")
  case False
  then show ?thesis by (simp add: addPaged_def)
next
  case True
  from addPaged_dispatch_cases[OF True, of env "sizeof_data_t t" x t ids g tr]
  show ?thesis
  proof
    assume "\<exists>ts. 0 < ts \<and> addPaged_dispatch env (sizeof_data_t t) n x t ids (g, tr) =
                addPaged_loop env ts n x t ids 0 (g, tr)"
    then obtain ts where ts: "0 < ts"
      and e: "addPaged_dispatch env (sizeof_data_t t) n x t ids (g, tr) =
                addPaged_loop env ts n x t ids 0 (g, tr)" by blast
    show ?thesis unfolding addPaged_supported[OF True assms(1)] e
      by (rule addPaged_loop_succeeds[OF ts assms(1) ok])
  next
    assume e: "addPaged_dispatch env (sizeof_data_t t) n x t ids (g, tr)
               = Some (addPage env n x t ids (g, tr))"
    show ?thesis unfolding addPaged_supported[OF True assms(1)] e addPage_supported[OF assms(1)]
      by (simp add: ok)
  qed
qed

lemma add_with_ids_succeeds:
  assumes "is_trained this" and "supported t" and "0 \<le> n"
    and ok: "\<And>m xo is g. fst (addImpl env m xo t is g) = Success"
  shows "\<exists>this' tr'. add_with_ids env n t ids (this, tr) = Some (Success, this', tr')"
  using assms(1,3)
    addPaged_succeeds[OF assms(2) ok, of n 0 "Some (generatedIds (ntotal this) n)" this tr]
    addPaged_succeeds[OF assms(2) ok, of n 0 ids this tr]
  by (auto simp: add_with_ids_def)

text \<open>
  C9. An insert returns. On a trained index, with a supported encoding, \<open>n \<ge> 0\<close> and an
  implementation that does not throw, it returns without a throw. For an insert that
  returns without a throw: when the caller passes no identifiers and the implementation
  requires them, every implementation call of the insert is handed an identifier
  array, and these arrays, in call order, make up
  \<open>ntotal, ntotal + 1, \<dots>, ntotal + n - 1\<close> for the \<open>ntotal\<close> at the start of the call;
  when the caller passes identifiers, the arrays handed on make up the caller's first
  \<open>n\<close> identifiers, unchanged and in order.
\<close>

theorem insert_identifiers:
  "(\<exists>res. add_with_ids env n t ids (this, tr) = Some res)
   \<and> (is_trained this \<and> supported t \<and> 0 \<le> n
        \<and> (\<forall>m xo is g. fst (addImpl env m xo t is g) = Success) \<longrightarrow>
        (\<exists>this' tr'. add_with_ids env n t ids (this, tr) = Some (Success, this', tr')))
   \<and> (\<forall>this' tr'. add_with_ids env n t ids (this, tr) = Some (Success, this', tr') \<longrightarrow>
         (ids = None \<and> addImplRequiresIDs env this \<longrightarrow>
            (\<exists>slices. supplied_ids tr' = supplied_ids tr @ map Some slices
                     \<and> concat slices = map (\<lambda>i. ntotal this + int i) [0 ..< nat n]))
       \<and> (\<forall>is. ids = Some is \<longrightarrow>
            (\<exists>slices. supplied_ids tr' = supplied_ids tr @ map Some slices
                     \<and> concat slices = take (nat n) is)))"
proof (intro conjI impI allI)
  show "\<exists>res. add_with_ids env n t ids (this, tr) = Some res"
    by (rule add_with_ids_returns)
next
  assume a: "is_trained this \<and> supported t \<and> 0 \<le> n
        \<and> (\<forall>m xo is g. fst (addImpl env m xo t is g) = Success)"
  then have ok: "\<And>m xo is g. fst (addImpl env m xo t is g) = Success" by blast
  from a show "\<exists>this' tr'. add_with_ids env n t ids (this, tr) = Some (Success, this', tr')"
    by (intro add_with_ids_succeeds ok) simp_all
next
  fix this' tr'
  assume run: "add_with_ids env n t ids (this, tr) = Some (Success, this', tr')"
  have key: "\<exists>slices. supplied_ids tr' = supplied_ids tr @ map Some slices
                     \<and> concat slices = take (nat n) is"
    if p: "(if n \<le> 0 then Some (Success, this, tr) else addPaged env n 0 t (Some is) (this, tr))
           = Some (Success, this', tr')" for "is"
  proof (cases "n \<le> 0")
    case True
    then have "tr' = tr" using p by simp
    then have "supplied_ids tr' = supplied_ids tr @ map Some [] \<and> concat [] = take (nat n) is"
      using True by simp
    then show ?thesis by blast
  next
    case False
    then have "1 \<le> n" by simp
    moreover have "addPaged env n 0 t (Some is) (this, tr) = Some (Success, this', tr')"
      using p False by simp
    ultimately show ?thesis by (rule addPaged_ids)
  qed
  have tr: "is_trained this" using run by (auto simp: add_with_ids_def split: if_splits)
  {
    assume g: "ids = None \<and> addImplRequiresIDs env this"
    have "(if n \<le> 0 then Some (Success, this, tr)
           else addPaged env n 0 t (Some (generatedIds (ntotal this) n)) (this, tr))
           = Some (Success, this', tr')"
      using run tr g by (auto simp: add_with_ids_def addPaged_def split: if_splits)
    from key[OF this] show "\<exists>slices. supplied_ids tr' = supplied_ids tr @ map Some slices
                     \<and> concat slices = map (\<lambda>i. ntotal this + int i) [0 ..< nat n]"
      by (simp add: generatedIds_def)
  }
  {
    fix "is" assume g: "ids = Some is"
    have "(if n \<le> 0 then Some (Success, this, tr) else addPaged env n 0 t (Some is) (this, tr))
           = Some (Success, this', tr')"
      using run tr g by (auto simp: add_with_ids_def addPaged_def split: if_splits)
    from key[OF this] show "\<exists>slices. supplied_ids tr' = supplied_ids tr @ map Some slices
                     \<and> concat slices = take (nat n) is" .
  }
qed

lemma example_insert_with_ids_run:
  "add_with_ids example_env 2 Float16 (Some [40, 41]) (example_index, []) =
     Some (Success, example_index\<lparr>ntotal := 9\<rparr>,
       [ToDeviceTemporary Vectors 2, ToDeviceTemporary Ids 2, AddImpl 2 0 Float16 (Some [40, 41])])"
  by code_simp

lemma wide_insert_run:
  "add_with_ids example_env 3 Float32 None (wide_index, []) =
     Some (Success, wide_index\<lparr>ntotal := 10\<rparr>,
       [ToDeviceTemporary Vectors 1, ToDeviceTemporary Ids 1, AddImpl 1 0 Float32 (Some [7]),
        ToDeviceTemporary Vectors 1, ToDeviceTemporary Ids 1, AddImpl 1 1 Float32 (Some [8]),
        ToDeviceTemporary Vectors 1, ToDeviceTemporary Ids 1, AddImpl 1 2 Float32 (Some [9])])"
  by code_simp

lemma wide_insert_with_ids_run:
  "add_with_ids example_env 3 Float32 (Some [10, 11, 12]) (wide_index, []) =
     Some (Success, wide_index\<lparr>ntotal := 10\<rparr>,
       [ToDeviceTemporary Vectors 1, ToDeviceTemporary Ids 1, AddImpl 1 0 Float32 (Some [10]),
        ToDeviceTemporary Vectors 1, ToDeviceTemporary Ids 1, AddImpl 1 1 Float32 (Some [11]),
        ToDeviceTemporary Vectors 1, ToDeviceTemporary Ids 1, AddImpl 1 2 Float32 (Some [12])])"
  by code_simp

theorem insert_identifiers_witness:
  "is_trained wide_index \<and> supported Float32 \<and> 0 \<le> (3::int)
   \<and> (\<forall>m xo is g. fst (addImpl example_env m xo Float32 is (g :: GpuIndex)) = Success)
   \<and> addImplRequiresIDs example_env wide_index \<and> ntotal wide_index = 7
   \<and> (\<exists>this' tr'. add_with_ids example_env 3 Float32 None (wide_index, [])
                     = Some (Success, this', tr')
        \<and> supplied_ids tr' = [Some [7], Some [8], Some [9]]
        \<and> (\<exists>slices. supplied_ids tr' = supplied_ids [] @ map Some slices
                     \<and> concat slices = [7, 8, 9]))
   \<and> (\<exists>this' tr'. add_with_ids example_env 3 Float32 (Some [10, 11, 12]) (wide_index, [])
                     = Some (Success, this', tr')
        \<and> supplied_ids tr' = [Some [10], Some [11], Some [12]]
        \<and> (\<exists>slices. supplied_ids tr' = supplied_ids [] @ map Some slices
                     \<and> concat slices = [10, 11, 12]))
   \<and> (\<exists>this' tr'. add_with_ids example_env 3 Float32 None (example_index, [])
                     = Some (Success, this', tr')
        \<and> supplied_ids tr' = [Some [7, 8, 9]])
   \<and> (\<exists>this' tr'. add_with_ids example_env 2 Float16 (Some [40, 41]) (example_index, [])
                     = Some (Success, this', tr')
        \<and> (\<exists>slices. supplied_ids tr' = supplied_ids [] @ map Some slices
                     \<and> concat slices = [40, 41]))"
proof -
  have h1: "is_trained wide_index" and h4: "ntotal wide_index = 7"
    by (simp_all add: wide_index_def example_index_def)
  have h2: "supported Float32" by (simp add: supported_def)
  have h3: "0 \<le> (3::int)" by simp
  have ok: "\<forall>m xo is g. fst (addImpl example_env m xo Float32 is (g :: GpuIndex)) = Success"
    by (simp add: example_env_def counting_addImpl_def)
  have r: "addImplRequiresIDs example_env wide_index" by (simp add: example_env_def)
  have e: "map (\<lambda>i. ntotal wide_index + int i) [0 ..< nat 3] = [7, 8, 9]"
    by (simp add: h4 upt_rec)
  note th = insert_identifiers[of example_env 3 Float32 None wide_index "[]"]
  from th h1 h2 h3 ok obtain this' tr' where
    run: "add_with_ids example_env 3 Float32 None (wide_index, []) = Some (Success, this', tr')"
    by blast
  from th run r have sl: "\<exists>slices. supplied_ids tr' = supplied_ids [] @ map Some slices
                     \<and> concat slices = [7, 8, 9]"
    unfolding e by blast
  have st: "supplied_ids tr' = [Some [7], Some [8], Some [9]]"
    using run unfolding wide_insert_run by (auto simp: supplied_ids_def)
  have a: "\<exists>this' tr'. add_with_ids example_env 3 Float32 None (wide_index, [])
                     = Some (Success, this', tr')
        \<and> supplied_ids tr' = [Some [7], Some [8], Some [9]]
        \<and> (\<exists>slices. supplied_ids tr' = supplied_ids [] @ map Some slices
                     \<and> concat slices = [7, 8, 9])"
    using run st sl by blast
  note th2 = insert_identifiers[of example_env 3 Float32 "Some [10, 11, 12]" wide_index "[]"]
  from th2 h1 h2 h3 ok obtain this2 tr2 where
    run2: "add_with_ids example_env 3 Float32 (Some [10, 11, 12]) (wide_index, [])
           = Some (Success, this2, tr2)"
    by blast
  from th2 run2 have "\<exists>slices. supplied_ids tr2 = supplied_ids [] @ map Some slices
                     \<and> concat slices = take (nat 3) [10, 11, 12]"
    by blast
  then have sl2: "\<exists>slices. supplied_ids tr2 = supplied_ids [] @ map Some slices
                     \<and> concat slices = [10, 11, 12]" by simp
  have st2: "supplied_ids tr2 = [Some [10], Some [11], Some [12]]"
    using run2 unfolding wide_insert_with_ids_run by (auto simp: supplied_ids_def)
  have b: "\<exists>this' tr'. add_with_ids example_env 3 Float32 (Some [10, 11, 12]) (wide_index, [])
                     = Some (Success, this', tr')
        \<and> supplied_ids tr' = [Some [10], Some [11], Some [12]]
        \<and> (\<exists>slices. supplied_ids tr' = supplied_ids [] @ map Some slices
                     \<and> concat slices = [10, 11, 12])"
    using run2 st2 sl2 by blast
  have c: "\<exists>this' tr'. add_with_ids example_env 3 Float32 None (example_index, [])
                     = Some (Success, this', tr')
        \<and> supplied_ids tr' = [Some [7, 8, 9]]"
    unfolding example_insert_run by (simp add: supplied_ids_def)
  note th3 = insert_identifiers[of example_env 2 Float16 "Some [40, 41]" example_index "[]"]
  from th3 example_insert_with_ids_run
  have "\<exists>slices. supplied_ids [ToDeviceTemporary Vectors 2, ToDeviceTemporary Ids 2,
             AddImpl 2 0 Float16 (Some [40, 41])] = supplied_ids [] @ map Some slices
                   \<and> concat slices = take (nat 2) [40, 41]"
    by blast
  then have "\<exists>slices. supplied_ids [ToDeviceTemporary Vectors 2, ToDeviceTemporary Ids 2,
             AddImpl 2 0 Float16 (Some [40, 41])] = supplied_ids [] @ map Some slices
                   \<and> concat slices = [40, 41]"
    by simp
  then have d: "\<exists>this' tr'. add_with_ids example_env 2 Float16 (Some [40, 41]) (example_index, [])
                     = Some (Success, this', tr')
        \<and> (\<exists>slices. supplied_ids tr' = supplied_ids [] @ map Some slices
                     \<and> concat slices = [40, 41])"
    using example_insert_with_ids_run by blast
  show ?thesis using h1 h2 h3 ok r h4 a b c d by (intro conjI)
qed

subsection \<open>Untrained indexes\<close>

text \<open>
  C7. On an index whose trained flag is false, \<open>add\<close>, \<open>add_with_ids\<close>, \<open>search\<close> and
  \<open>assign\<close> fail with \<open>NotTrained\<close>, whatever \<open>n\<close>, \<open>d\<close>, \<open>k\<close> and the other arguments are,
  and the state they return with is the state they were called in: the index, the
  outputs and the trace are untouched, so nothing was moved and no implementation was
  called.
\<close>

theorem untrained_operations_fail:
  assumes "\<not> is_trained this"
  shows "add env n t (this, tr) = Some (Failure NotTrained, this, tr)
       \<and> add_with_ids env n t ids (this, tr) = Some (Failure NotTrained, this, tr)
       \<and> search env this n x xOnHost t k st = Some (Failure NotTrained, st)
       \<and> assign env this n x xOnHost k st = Some (Failure NotTrained, st)"
  using assms by (simp add: add_def add_with_ids_def search_def assign_def)

theorem untrained_operations_fail_witness:
  "\<not> is_trained untrained_index
   \<and> add example_env 3 Float32 (untrained_index, []) = Some (Failure NotTrained, untrained_index, [])
   \<and> add_with_ids example_env 3 Float32 (Some [1, 2, 3]) (untrained_index, [])
       = Some (Failure NotTrained, untrained_index, [])
   \<and> search example_env untrained_index 2 [5, 6] True Float32 1 ([0, 0], [])
       = Some (Failure NotTrained, [0, 0], [])
   \<and> assign example_env untrained_index 2 [5, 6] True 1 ([0, 0], [])
       = Some (Failure NotTrained, [0, 0], [])"
proof -
  have h: "\<not> is_trained untrained_index" by (simp add: untrained_index_def)
  show ?thesis using h untrained_operations_fail[OF h, of example_env] by simp
qed

subsection \<open>Empty batches\<close>

text \<open>
  C6, as stated, fails for \<open>k = 0\<close>: the validation of \<open>k\<close> runs before the test
  \<open>n == 0 || k == 0\<close> and rejects zero. A trained index, two queries, \<open>k = 0\<close>:
\<close>

theorem search_k_zero_counterexample:
  "is_trained example_index
   \<and> search example_env example_index 2 [5, 6] True Float32 0 ([0, 0], [])
       = Some (Failure InvalidK, [0, 0], [])"
  by (simp add: example_index_def search_def validateKSelect_def)

text \<open>
  C6, amended. On a trained index: a search with \<open>n = 0\<close> and a \<open>k\<close> that passes the
  validation returns success with the outputs and the trace untouched (no
  implementation call, no output write); a search with \<open>k = 0\<close> fails with \<open>InvalidK\<close>,
  likewise with nothing touched; an insert with \<open>n = 0\<close> returns success with the index
  (so \<open>ntotal\<close>) and the trace untouched.
\<close>

theorem noop_on_empty_batch:
  assumes "is_trained this"
  shows "(validateKSelect env k (should_use_cuvs env (config this)) = Success \<longrightarrow>
            search env this 0 x xOnHost t k st = Some (Success, st))
       \<and> search env this n x xOnHost t 0 st = Some (Failure InvalidK, st)
       \<and> add_with_ids env 0 t ids (this, tr) = Some (Success, this, tr)
       \<and> add env 0 t (this, tr) = Some (Success, this, tr)"
  using assms by (simp add: add_def add_with_ids_def search_def validateKSelect_def)

theorem noop_on_empty_batch_witness:
  "is_trained example_index
   \<and> validateKSelect example_env 5 (should_use_cuvs example_env (config example_index)) = Success
   \<and> search example_env example_index 0 [] True Float32 5 ([], []) = Some (Success, [], [])
   \<and> search example_env example_index 2 [5, 6] True Float32 0 ([0, 0], [])
       = Some (Failure InvalidK, [0, 0], [])
   \<and> add_with_ids example_env 0 Float32 None (example_index, []) = Some (Success, example_index, [])
   \<and> add example_env 0 Float32 (example_index, []) = Some (Success, example_index, [])"
proof -
  have h: "is_trained example_index" by (simp add: example_index_def)
  have v: "validateKSelect example_env 5 (should_use_cuvs example_env (config example_index)) = Success"
    by (simp add: validateKSelect_def example_env_def)
  show ?thesis using h v noop_on_empty_batch[OF h, of example_env 5 "[]" True Float32 "([], [])"]
      noop_on_empty_batch[OF h, of example_env 5 "[5, 6]" True Float32 "([0, 0], [])" 2] by simp
qed

subsection \<open>The double-buffered loop\<close>

lemma flip_flip: "b < 2 \<Longrightarrow> flip (flip b) = b"
  by (auto simp: flip_def)

lemma flip_less: "flip b < 2"
  by (simp add: flip_def)

lemma flip_neq: "flip b \<noteq> b"
  by (simp add: flip_def)

lemma transfer_at_head:
  assumes "at_head n P a s"
  shows "stage_transfer n P s =
     s\<lparr>bufGpus := (bufGpus s)
            [cur2BufIndex s := overwrite (take (nat (min P (n - a))) (bufPinned s ! cur2BufIndex s))
                                (bufGpus s ! cur2BufIndex s)],
       eventPinnedCopyDone := (eventPinnedCopyDone s)[cur2BufIndex s := True],
       issued := issued s @ [PinnedToGpu a (min P (n - a)) (cur2BufIndex s)],
       cur3 := a,
       cur2 := a + min P (n - a),
       cur2BufIndex := flip (cur2BufIndex s)\<rparr>"
  using assms by (simp add: stage_transfer_def at_head_def Let_def)

lemma compute_after_transfer:
  assumes "at_head n P a s"
  shows "stage_compute env n P t k (stage_transfer n P s) = (Success, after_compute env n P t k a s)"
  using assms unfolding transfer_at_head[OF assms]
  by (simp add: stage_compute_def at_head_def Let_def after_compute_def)

lemma iteration_at_head:
  fixes env :: "('a, 'v, 'r) collaborators" and x :: "'v list" and t :: NumericType and k :: int
  assumes h: "at_head n P a s" and P: "1 \<le> P"
  defines "s' \<equiv> snd (pipeline_iteration env n P x t k s)"
  shows "fst (pipeline_iteration env n P x t k s) = Success"
    and "issued s' = issued s @ iteration_events n P t k a (cur2BufIndex s)"
    and "outRows s' = write_rows (outRows s) a
           (searchImpl env
              (take (nat (min P (n - a)))
                 (overwrite (take (nat (min P (n - a))) (bufPinned s ! cur2BufIndex s))
                            (bufGpus s ! cur2BufIndex s))) t k)"
    and "a + P < n \<Longrightarrow> at_head n P (a + P) s' \<and> cur2BufIndex s' = flip (cur2BufIndex s)
           \<and> bufPinned s' ! flip (cur2BufIndex s)
              = overwrite (page n P x (a + P)) (bufPinned s ! flip (cur2BufIndex s))"
    and "\<not> a + P < n \<Longrightarrow> cur1 s' = n \<and> cur2 s' = n \<and> cur3 s' = n"
    and "passed s' = passed s @
           [take (nat (min P (n - a)))
              (overwrite (take (nat (min P (n - a))) (bufPinned s ! cur2BufIndex s))
                         (bufGpus s ! cur2BufIndex s))]"
proof -
  have it: "pipeline_iteration env n P x t k s =
        (Success, stage_copy_in n P x (after_compute env n P t k a s))"
    unfolding pipeline_iteration_def Let_def compute_after_transfer[OF h] by simp
  have c1: "cur1 (after_compute env n P t k a s) = a + min P (n - a)"
    and b1: "cur1BufIndex (after_compute env n P t k a s) = flip (cur2BufIndex s)"
    using h by (simp_all add: at_head_def after_compute_def)
  show "fst (pipeline_iteration env n P x t k s) = Success"
    by (simp add: it)
  show "issued s' = issued s @ iteration_events n P t k a (cur2BufIndex s)"
  proof (cases "a + P < n")
    case True
    then have m: "min P (n - a) = P" by simp
    show ?thesis using True unfolding s'_def it
      by (simp add: stage_copy_in_def c1 b1 Let_def m iteration_events_def)
         (simp add: after_compute_def m)
  next
    case False
    then have m: "a + min P (n - a) = n" using h by (simp add: at_head_def)
    show ?thesis using False unfolding s'_def it
      by (simp add: stage_copy_in_def c1 Let_def m iteration_events_def)
         (simp add: after_compute_def)
  qed
  show "outRows s' = write_rows (outRows s) a
           (searchImpl env
              (take (nat (min P (n - a)))
                 (overwrite (take (nat (min P (n - a))) (bufPinned s ! cur2BufIndex s))
                            (bufGpus s ! cur2BufIndex s))) t k)"
    unfolding s'_def it
    by (simp add: stage_copy_in_def Let_def) (simp add: after_compute_def)
  show "at_head n P (a + P) s' \<and> cur2BufIndex s' = flip (cur2BufIndex s)
           \<and> bufPinned s' ! flip (cur2BufIndex s)
              = overwrite (page n P x (a + P)) (bufPinned s ! flip (cur2BufIndex s))"
    if lt: "a + P < n"
  proof -
    have m: "min P (n - a) = P" using lt by simp
    have bl: "flip (cur2BufIndex s) < 2" by (rule flip_less)
    show ?thesis using lt h P unfolding s'_def it
      by (simp add: stage_copy_in_def c1 b1 Let_def m at_head_def)
         (simp add: after_compute_def m flip_flip page_def bl)
  qed
  show "cur1 s' = n \<and> cur2 s' = n \<and> cur3 s' = n" if "\<not> a + P < n"
  proof -
    have m: "a + min P (n - a) = n" using that h by (simp add: at_head_def)
    show ?thesis using that unfolding s'_def it
      by (simp add: stage_copy_in_def c1 Let_def m) (simp add: after_compute_def m)
  qed
  show "passed s' = passed s @
           [take (nat (min P (n - a)))
              (overwrite (take (nat (min P (n - a))) (bufPinned s ! cur2BufIndex s))
                         (bufGpus s ! cur2BufIndex s))]"
    unfolding s'_def it
    by (simp add: stage_copy_in_def Let_def) (simp add: after_compute_def)
qed

lemma pipeline_loop_step:
  "cur3 s < n \<Longrightarrow> fst (pipeline_iteration env n P x t k s) = Success \<Longrightarrow>
   pipeline_loop env n P x t k s =
   pipeline_loop env n P x t k (snd (pipeline_iteration env n P x t k s))"
  by (subst pipeline_loop.simps) (simp add: case_prod_unfold)

lemma pipeline_loop_done:
  "\<not> cur3 s < n \<Longrightarrow> pipeline_loop env n P x t k s = Some (Success, s)"
  by (subst pipeline_loop.simps) simp

lemma buf_index_step: "b < 2 \<Longrightarrow> (flip b + j) mod 2 = (b + Suc j) mod 2"
  by (auto simp: flip_def less_2_cases_iff)

lemma pipeline_loop_from_head:
  fixes env :: "('a, 'v, 'r) collaborators" and x :: "'v list" and t :: NumericType and k :: int
  assumes P: "1 \<le> P"
  shows "at_head n P a s \<Longrightarrow>
     \<exists>s'. pipeline_loop env n P x t k s = Some (Success, s')
        \<and> cur1 s' = n \<and> cur2 s' = n \<and> cur3 s' = n
        \<and> issued s' = issued s @
             concat (map (\<lambda>j. iteration_events n P t k (a + int j * P) ((cur2BufIndex s + j) mod 2))
                       [0 ..< nat ((n - a + P - 1) div P)])"
proof (induction "nat (n - a)" arbitrary: a s rule: less_induct)
  case less
  note h = less.prems
  have P0: "0 < P" using P by simp
  have an: "a < n" and b2: "cur2BufIndex s < 2" and c3: "cur3 s < n"
    using h by (auto simp: at_head_def)
  let ?s1 = "snd (pipeline_iteration env n P x t k s)"
  note it = iteration_at_head[OF h P, of env x t k]
  have step: "pipeline_loop env n P x t k s = pipeline_loop env n P x t k ?s1"
    using c3 it(1) by (rule pipeline_loop_step)
  have cnt: "nat ((n - a + P - 1) div P) = Suc (nat ((n - (a + P) + P - 1) div P))"
    using P0 an by (rule tile_count_step)
  have sh: "\<And>j. a + P + int j * P = a + int (Suc j) * P" by (simp add: algebra_simps)
  have b0: "(cur2BufIndex s + 0) mod 2 = cur2BufIndex s" using b2 by simp
  show ?case
  proof (cases "a + P < n")
    case True
    from it(4)[OF True] have h1: "at_head n P (a + P) ?s1"
      and bi: "cur2BufIndex ?s1 = flip (cur2BufIndex s)" by simp_all
    have "nat (n - (a + P)) < nat (n - a)" using an P0 by linarith
    from less.hyps[OF this h1] obtain s' where
      r: "pipeline_loop env n P x t k ?s1 = Some (Success, s')"
      and c: "cur1 s' = n" "cur2 s' = n" "cur3 s' = n"
      and e: "issued s' = issued ?s1 @
             concat (map (\<lambda>j. iteration_events n P t k (a + P + int j * P) ((cur2BufIndex ?s1 + j) mod 2))
                       [0 ..< nat ((n - (a + P) + P - 1) div P)])"
      by blast
    have "issued s' = issued s @
             concat (map (\<lambda>j. iteration_events n P t k (a + int j * P) ((cur2BufIndex s + j) mod 2))
                       [0 ..< nat ((n - a + P - 1) div P)])"
      unfolding e it(2) cnt map_upt_Suc bi sh buf_index_step[OF b2] using b0 by simp
    then show ?thesis using r c step by simp
  next
    case False
    from it(5)[OF False] have c: "cur1 ?s1 = n" "cur2 ?s1 = n" "cur3 ?s1 = n" by simp_all
    have r: "pipeline_loop env n P x t k ?s1 = Some (Success, ?s1)"
      using c(3) by (simp add: pipeline_loop_done)
    have z: "nat ((n - (a + P) + P - 1) div P) = 0" using P0 False by (rule tile_count_done)
    have "issued ?s1 = issued s @
             concat (map (\<lambda>j. iteration_events n P t k (a + int j * P) ((cur2BufIndex s + j) mod 2))
                       [0 ..< nat ((n - a + P - 1) div P)])"
      unfolding it(2) cnt z using b0 by simp
    then show ?thesis using r c step by simp
  qed
qed

lemma take_overwrite: "take (length src) (overwrite src dst) = src"
  by (simp add: overwrite_def)

lemma length_page:
  "0 \<le> a \<Longrightarrow> a \<le> n \<Longrightarrow> nat n \<le> length x \<Longrightarrow> length (page n P x a) = nat (min P (n - a))"
  by (auto simp: page_def min_def)

lemma rows_step:
  fixes A p N :: nat and f :: "'v \<Rightarrow> 'r" and x :: "'v list" and out :: "'r list"
  assumes "A + p \<le> N" and "N \<le> length out" and "N \<le> length x"
  defines "out1 \<equiv> write_rows out (int A) (map f (take p (drop A x)))"
  shows "length out1 = length out"
    and "take (A + p) out1 @ map f (take (N - (A + p)) (drop (A + p) x)) @ drop N out1
         = take A out @ map f (take (N - A) (drop A x)) @ drop N out"
proof -
  define pg where "pg = map f (take p (drop A x))"
  have lp: "length pg = p" using assms(1,3) by (simp add: pg_def)
  have o1: "out1 = take A out @ pg @ drop (A + p) out"
    unfolding out1_def write_rows_def pg_def[symmetric] using lp by simp
  show "length out1 = length out" using assms(1,2) lp by (simp add: o1)
  have la: "length (take A out) = A" using assms(1,2) by simp
  have t: "take (A + p) out1 = take A out @ pg"
    unfolding o1 using la lp by simp
  have "drop N out1 = drop (N - (A + p)) (drop (A + p) out)"
    unfolding o1 using la lp assms(1) by simp
  then have d: "drop N out1 = drop N out" using assms(1) by simp
  have "take (N - A) (drop A x) = take p (drop A x) @ take (N - (A + p)) (drop (A + p) x)"
  proof -
    have "N - A = p + (N - (A + p))" using assms(1) by simp
    then have "take (N - A) (drop A x) = take (p + (N - (A + p))) (drop A x)" by simp
    also have "\<dots> = take p (drop A x) @ take (N - (A + p)) (drop p (drop A x))"
      by (rule take_add)
    finally show ?thesis by (simp add: add.commute)
  qed
  then have "map f (take (N - A) (drop A x)) = pg @ map f (take (N - (A + p)) (drop (A + p) x))"
    by (simp add: pg_def)
  then show "take (A + p) out1 @ map f (take (N - (A + p)) (drop (A + p) x)) @ drop N out1
         = take A out @ map f (take (N - A) (drop A x)) @ drop N out"
    unfolding t d by simp
qed

lemma pipeline_loop_rows:
  fixes env :: "('a, 'v, 'r) collaborators" and x :: "'v list" and t :: NumericType and k :: int
  assumes P: "1 \<le> P" and rw: "\<And>qs. searchImpl env qs t k = map f qs" and x: "nat n \<le> length x"
  shows "at_head n P a s \<Longrightarrow>
     take (nat (min P (n - a))) (bufPinned s ! cur2BufIndex s) = page n P x a \<Longrightarrow>
     nat n \<le> length (outRows s) \<Longrightarrow>
     pipeline_loop env n P x t k s = Some (r, s') \<Longrightarrow>
     outRows s' = take (nat a) (outRows s) @ map f (take (nat (n - a)) (drop (nat a) x))
                  @ drop (nat n) (outRows s)"
proof (induction "nat (n - a)" arbitrary: a s rule: less_induct)
  case less
  note h = less.prems(1) and pg = less.prems(2) and lo = less.prems(3) and run = less.prems(4)
  have P0: "0 < P" using P by simp
  have a0: "0 \<le> a" and an: "a < n" and c3: "cur3 s < n"
    using h by (auto simp: at_head_def)
  let ?s1 = "snd (pipeline_iteration env n P x t k s)"
  let ?num = "min P (n - a)"
  note it = iteration_at_head[OF h P, of env x t k]
  have step: "pipeline_loop env n P x t k s = pipeline_loop env n P x t k ?s1"
    using c3 it(1) by (rule pipeline_loop_step)
  have lpg: "length (page n P x a) = nat ?num" using a0 an x by (simp add: length_page)
  have inp: "take (nat ?num) (overwrite (take (nat ?num) (bufPinned s ! cur2BufIndex s))
                (bufGpus s ! cur2BufIndex s)) = page n P x a"
    unfolding pg using take_overwrite[of "page n P x a"] lpg by simp
  have o1: "outRows ?s1 = write_rows (outRows s) (int (nat a))
              (map f (take (nat ?num) (drop (nat a) x)))"
    unfolding it(3) inp rw using a0 by (simp add: page_def)
  have le: "nat a + nat ?num \<le> nat n" using a0 an P0 by linarith
  note rs = rows_step[OF le lo x, of f, folded o1]
  show ?case
  proof (cases "a + P < n")
    case True
    then have m: "?num = P" by simp
    from it(4)[OF True] have h1: "at_head n P (a + P) ?s1"
      and bi: "cur2BufIndex ?s1 = flip (cur2BufIndex s)"
      and bp: "bufPinned ?s1 ! flip (cur2BufIndex s)
              = overwrite (page n P x (a + P)) (bufPinned s ! flip (cur2BufIndex s))" by simp_all
    have lp1: "length (page n P x (a + P)) = nat (min P (n - (a + P)))"
      using a0 P0 True x by (simp add: length_page)
    have pg1: "take (nat (min P (n - (a + P)))) (bufPinned ?s1 ! cur2BufIndex ?s1)
               = page n P x (a + P)"
      unfolding bi bp using take_overwrite[of "page n P x (a + P)"] lp1 by simp
    have lo1: "nat n \<le> length (outRows ?s1)" using rs(1) lo by simp
    have run1: "pipeline_loop env n P x t k ?s1 = Some (r, s')" using run step by simp
    have "nat (n - (a + P)) < nat (n - a)" using an P0 by linarith
    from less.hyps[OF this h1 pg1 lo1 run1]
    have "outRows s' = take (nat (a + P)) (outRows ?s1)
            @ map f (take (nat (n - (a + P))) (drop (nat (a + P)) x)) @ drop (nat n) (outRows ?s1)" .
    moreover have "nat (a + P) = nat a + nat ?num" using a0 P0 m by (simp add: nat_add_distrib)
    moreover have "nat (n - (a + P)) = nat n - (nat a + nat ?num)" using a0 P0 m True by simp
    moreover have "nat (n - a) = nat n - nat a" using a0 an by simp
    ultimately show ?thesis using rs(2) by simp
  next
    case False
    then have m: "?num = n - a" using an by simp
    from it(5)[OF False] have "cur3 ?s1 = n" by simp
    then have "pipeline_loop env n P x t k ?s1 = Some (Success, ?s1)"
      by (simp add: pipeline_loop_done)
    then have e: "s' = ?s1" using run step by simp
    have z: "nat n - (nat a + nat ?num) = 0" using m a0 an by simp
    have na: "nat (n - a) = nat n - nat a" using a0 an by simp
    have f: "nat a + nat ?num = nat n" using m a0 an by simp
    have "take (nat n) (outRows ?s1) @ drop (nat n) (outRows ?s1) = outRows ?s1" by simp
    then show ?thesis using rs(2) unfolding e z f na by simp
  qed
qed

lemma searchImpl_calls_append:
  "searchImpl_calls (a @ b) = searchImpl_calls a @ searchImpl_calls b"
  by (induction a rule: searchImpl_calls.induct) simp_all

lemma searchImpl_calls_concat:
  "searchImpl_calls (concat xss) = concat (map searchImpl_calls xss)"
  by (induction xss) (simp_all add: searchImpl_calls_append)

lemma searched_append: "searched (a @ b) = searched a @ searched b"
  by (simp add: searched_def searchImpl_calls_append)

lemma searchImpl_calls_iteration:
  "searchImpl_calls (iteration_events n P t k a b) = [(min P (n - a), a)]"
  by (simp add: iteration_events_def)

lemma first_iteration:
  fixes env :: "('a, 'v, 'r) collaborators" and x :: "'v list" and t :: NumericType and k :: int
    and st :: "'r search_state"
  assumes "1 \<le> n" and "1 \<le> P"
  defines "s1 \<equiv> snd (pipeline_iteration env n P x t k (pipeline_init st))"
  shows "fst (pipeline_iteration env n P x t k (pipeline_init st)) = Success"
    and "at_head n P 0 s1"
    and "cur2BufIndex s1 = 0"
    and "issued s1 = snd st @ [HostToPinned 0 (min P n) 0]"
    and "outRows s1 = fst st"
    and "bufPinned s1 ! 0 = page n P x 0"
    and "passed s1 = []"
  using assms(1,2) unfolding s1_def
  by (simp_all add: pipeline_iteration_def pipeline_init_def stage_transfer_def stage_compute_def
        stage_copy_in_def Let_def at_head_def flip_def overwrite_def page_def)

lemma covered:
  assumes "0 < P"
  shows "0 \<le> a \<Longrightarrow>
     concat (map (\<lambda>j. map (\<lambda>i. (a + int j * P) + int i) [0 ..< nat (min P (n - (a + int j * P)))])
               [0 ..< nat ((n - a + P - 1) div P)])
     = map int [nat a ..< nat n]"
proof (induction "nat (n - a)" arbitrary: a rule: less_induct)
  case less
  show ?case
  proof (cases "a < n")
    case False
    then show ?thesis using assms by (simp add: tile_count_done)
  next
    case True
    have sh: "\<And>j. a + P + int j * P = a + int (Suc j) * P" by (simp add: algebra_simps)
    have "nat (n - (a + P)) < nat (n - a)" using True assms by linarith
    from less.hyps[OF this] less.prems assms
    have ih: "concat (map (\<lambda>j. map (\<lambda>i. (a + int (Suc j) * P) + int i)
                               [0 ..< nat (min P (n - (a + int (Suc j) * P)))])
               [0 ..< nat ((n - (a + P) + P - 1) div P)])
       = map int [nat (a + P) ..< nat n]" unfolding sh[symmetric] by simp
    have "map (\<lambda>i. i + nat a) [0 ..< nat (min P (n - a))] = [nat a ..< nat (min P (n - a)) + nat a]"
      by (rule map_add_upt)
    then have "map int (map (\<lambda>i. i + nat a) [0 ..< nat (min P (n - a))])
             = map int [nat a ..< nat (min P (n - a)) + nat a]" by simp
    then have hd: "map (\<lambda>i. a + int i) [0 ..< nat (min P (n - a))]
             = map int [nat a ..< nat a + nat (min P (n - a))]"
      using less.prems by (simp add: comp_def add.commute)
    have "map int [nat a ..< nat a + nat (min P (n - a))] @ map int [nat (a + P) ..< nat n]
        = map int [nat a ..< nat n]"
    proof (cases "a + P < n")
      case True
      have e: "nat a + nat (min P (n - a)) = nat (a + P)" using True less.prems assms by simp
      have l1: "nat a \<le> nat (a + P)" using assms by simp
      have "nat n = nat (a + P) + (nat n - nat (a + P))" using True by simp
      then have "[nat a ..< nat n] = [nat a ..< nat (a + P) + (nat n - nat (a + P))]" by simp
      also have "\<dots> = [nat a ..< nat (a + P)] @ [nat (a + P) ..< nat (a + P) + (nat n - nat (a + P))]"
        using l1 by (rule upt_add_eq_append)
      finally have "[nat a ..< nat n] = [nat a ..< nat (a + P)] @ [nat (a + P) ..< nat n]"
        using True by simp
      then show ?thesis unfolding e by simp
    next
      case False
      then have e: "nat a + nat (min P (n - a)) = nat n" using \<open>a < n\<close> less.prems by simp
      have "[nat (a + P) ..< nat n] = []" using False by simp
      then show ?thesis unfolding e by simp
    qed
    then show ?thesis
      unfolding tile_count_step[OF assms True] map_upt_Suc
      using ih hd by simp
  qed
qed

lemma cur3_init: "cur3 (pipeline_init st) = - 1"
  by (simp add: pipeline_init_def)

lemma pipeline_run:
  fixes env :: "('a, 'v, 'r) collaborators" and x :: "'v list" and t :: NumericType and k :: int
    and st :: "'r search_state"
  assumes n: "1 \<le> n" and P: "1 \<le> P"
  shows "\<exists>s'. pipeline_loop env n P x t k (pipeline_init st) = Some (Success, s')
        \<and> cur1 s' = n \<and> cur2 s' = n \<and> cur3 s' = n
        \<and> issued s' = snd st @ HostToPinned 0 (min P n) 0 #
             concat (map (\<lambda>j. iteration_events n P t k (int j * P) (j mod 2))
                       [0 ..< nat (ceil_div n P)])"
proof -
  let ?s1 = "snd (pipeline_iteration env n P x t k (pipeline_init st))"
  note f = first_iteration[OF n P, of env x t k st]
  have "cur3 (pipeline_init st) < n" using n by (simp add: cur3_init)
  then have step: "pipeline_loop env n P x t k (pipeline_init st) = pipeline_loop env n P x t k ?s1"
    using f(1) by (rule pipeline_loop_step)
  from pipeline_loop_from_head[OF P f(2), of env x t k] obtain s' where
    "pipeline_loop env n P x t k ?s1 = Some (Success, s')"
    "cur1 s' = n" "cur2 s' = n" "cur3 s' = n"
    "issued s' = issued ?s1 @
             concat (map (\<lambda>j. iteration_events n P t k (0 + int j * P) ((cur2BufIndex ?s1 + j) mod 2))
                       [0 ..< nat ((n - 0 + P - 1) div P)])"
    by blast
  then show ?thesis unfolding step f(3) f(4) by (simp add: ceil_div_def)
qed

lemma pipeline_run_rows:
  fixes env :: "('a, 'v, 'r) collaborators" and x :: "'v list" and t :: NumericType and k :: int
    and st :: "'r search_state"
  assumes n: "1 \<le> n" and P: "1 \<le> P" and rw: "\<And>qs. searchImpl env qs t k = map f qs"
    and x: "nat n \<le> length x" and o: "nat n \<le> length (fst st)"
    and run: "pipeline_loop env n P x t k (pipeline_init st) = Some (r, s')"
  shows "outRows s' = map f (take (nat n) x) @ drop (nat n) (fst st)"
proof -
  let ?s1 = "snd (pipeline_iteration env n P x t k (pipeline_init st))"
  note f = first_iteration[OF n P, of env x t k st]
  have "cur3 (pipeline_init st) < n" using n by (simp add: cur3_init)
  then have step: "pipeline_loop env n P x t k (pipeline_init st) = pipeline_loop env n P x t k ?s1"
    using f(1) by (rule pipeline_loop_step)
  have lp: "length (page n P x 0) = nat (min P (n - 0))" using n x by (intro length_page) simp_all
  have pg: "take (nat (min P (n - 0))) (bufPinned ?s1 ! cur2BufIndex ?s1) = page n P x 0"
    unfolding f(3) f(6) using lp by simp
  have o1: "nat n \<le> length (outRows ?s1)" unfolding f(5) by (rule o)
  have run1: "pipeline_loop env n P x t k ?s1 = Some (r, s')" using run step by simp
  from pipeline_loop_rows[OF P rw x f(2) pg o1 run1] show ?thesis unfolding f(5) by simp
qed

lemma loop_head_invariant:
  fixes env :: "('a, 'v, 'r) collaborators" and x :: "'v list" and t :: NumericType and k :: int
    and st :: "'r search_state"
  assumes n: "1 \<le> n" and P: "1 \<le> P"
  shows "loop_head env n P x t k (pipeline_init st) s \<Longrightarrow>
         s = pipeline_init st \<or> (\<exists>a. at_head n P a s) \<or> (cur1 s = n \<and> cur2 s = n \<and> cur3 s = n)"
proof (induction rule: loop_head.induct)
  case first
  then show ?case by simp
next
  case (again s s')
  have s': "s' = snd (pipeline_iteration env n P x t k s)" using again.hyps(3) by simp
  from again.IH show ?case
  proof (elim disjE exE)
    assume "s = pipeline_init st"
    then show ?thesis using first_iteration(2)[OF n P, of env x t k st] s' by blast
  next
    fix a assume h: "at_head n P a s"
    note it = iteration_at_head[OF h P, of env x t k]
    show ?thesis
    proof (cases "a + P < n")
      case True
      from it(4)[OF True] show ?thesis unfolding s' by blast
    next
      case False
      from it(5)[OF False] show ?thesis unfolding s' by blast
    qed
  next
    assume "cur1 s = n \<and> cur2 s = n \<and> cur3 s = n"
    then show ?thesis using again.hyps(2) by simp
  qed
qed

lemma loop_head_cursors:
  fixes env :: "('a, 'v, 'r) collaborators" and x :: "'v list" and t :: NumericType and k :: int
    and st :: "'r search_state"
  assumes n: "1 \<le> n" and P: "1 \<le> P"
    and h: "loop_head env n P x t k (pipeline_init st) s"
  shows "cur3 s \<le> cur2 s \<and> cur2 s \<le> cur1 s"
  using loop_head_invariant[OF n P h] n P
  by (auto simp: pipeline_init_def at_head_def)

lemma searched_run:
  assumes n: "1 \<le> n" and P: "1 \<le> P"
  shows "searched (tr @ HostToPinned 0 (min P n) 0 #
             concat (map (\<lambda>j. iteration_events n P t k (int j * P) (j mod 2))
                       [0 ..< nat (ceil_div n P)]))
         = searched tr @ map int [0 ..< nat n]"
proof -
  have P0: "0 < P" using P by simp
  have "searchImpl_calls (HostToPinned 0 (min P n) 0 #
             concat (map (\<lambda>j. iteration_events n P t k (int j * P) (j mod 2))
                       [0 ..< nat (ceil_div n P)]))
        = map (\<lambda>j. (min P (n - int j * P), int j * P)) [0 ..< nat (ceil_div n P)]"
    by (simp add: searchImpl_calls_concat comp_def searchImpl_calls_iteration)
  then have "searched (HostToPinned 0 (min P n) 0 #
             concat (map (\<lambda>j. iteration_events n P t k (int j * P) (j mod 2))
                       [0 ..< nat (ceil_div n P)]))
        = concat (map (\<lambda>j. map (\<lambda>i. (0 + int j * P) + int i) [0 ..< nat (min P (n - (0 + int j * P)))])
               [0 ..< nat ((n - 0 + P - 1) div P)])"
    by (simp add: searched_def comp_def ceil_div_def)
  also have "\<dots> = map int [nat 0 ..< nat n]" using covered[OF P0, of 0 n] by simp
  finally show ?thesis
    using searched_append[of tr "HostToPinned 0 (min P n) 0 #
             concat (map (\<lambda>j. iteration_events n P t k (int j * P) (j mod 2))
                       [0 ..< nat (ceil_div n P)])"] by simp
qed

lemma pipeline_loop_passed:
  fixes env :: "('a, 'v, 'r) collaborators" and x :: "'v list" and t :: NumericType and k :: int
  assumes P: "1 \<le> P" and x: "nat n \<le> length x"
  shows "at_head n P a s \<Longrightarrow>
     take (nat (min P (n - a))) (bufPinned s ! cur2BufIndex s) = page n P x a \<Longrightarrow>
     pipeline_loop env n P x t k s = Some (r, s') \<Longrightarrow>
     passed s' = passed s @
       map (\<lambda>j. page n P x (a + int j * P)) [0 ..< nat ((n - a + P - 1) div P)]"
proof (induction "nat (n - a)" arbitrary: a s rule: less_induct)
  case less
  note h = less.prems(1) and pg = less.prems(2) and run = less.prems(3)
  have P0: "0 < P" using P by simp
  have a0: "0 \<le> a" and an: "a < n" and c3: "cur3 s < n"
    using h by (auto simp: at_head_def)
  let ?s1 = "snd (pipeline_iteration env n P x t k s)"
  let ?num = "min P (n - a)"
  note it = iteration_at_head[OF h P, of env x t k]
  have step: "pipeline_loop env n P x t k s = pipeline_loop env n P x t k ?s1"
    using c3 it(1) by (rule pipeline_loop_step)
  have lpg: "length (page n P x a) = nat ?num" using a0 an x by (simp add: length_page)
  have inp: "take (nat ?num) (overwrite (take (nat ?num) (bufPinned s ! cur2BufIndex s))
                (bufGpus s ! cur2BufIndex s)) = page n P x a"
    unfolding pg using take_overwrite[of "page n P x a"] lpg by simp
  have p1: "passed ?s1 = passed s @ [page n P x a]" unfolding it(6) inp by simp
  have cnt: "nat ((n - a + P - 1) div P) = Suc (nat ((n - (a + P) + P - 1) div P))"
    using P0 an by (rule tile_count_step)
  have sh: "\<And>j. a + P + int j * P = a + int (Suc j) * P" by (simp add: algebra_simps)
  show ?case
  proof (cases "a + P < n")
    case True
    from it(4)[OF True] have h1: "at_head n P (a + P) ?s1"
      and bi: "cur2BufIndex ?s1 = flip (cur2BufIndex s)"
      and bp: "bufPinned ?s1 ! flip (cur2BufIndex s)
              = overwrite (page n P x (a + P)) (bufPinned s ! flip (cur2BufIndex s))" by simp_all
    have lp1: "length (page n P x (a + P)) = nat (min P (n - (a + P)))"
      using a0 P0 True x by (simp add: length_page)
    have pg1: "take (nat (min P (n - (a + P)))) (bufPinned ?s1 ! cur2BufIndex ?s1)
               = page n P x (a + P)"
      unfolding bi bp using take_overwrite[of "page n P x (a + P)"] lp1 by simp
    have run1: "pipeline_loop env n P x t k ?s1 = Some (r, s')" using run step by simp
    have "nat (n - (a + P)) < nat (n - a)" using an P0 by linarith
    from less.hyps[OF this h1 pg1 run1]
    have "passed s' = passed ?s1 @
       map (\<lambda>j. page n P x (a + P + int j * P)) [0 ..< nat ((n - (a + P) + P - 1) div P)]" .
    then show ?thesis unfolding p1 cnt map_upt_Suc sh by simp
  next
    case False
    from it(5)[OF False] have "cur3 ?s1 = n" by simp
    then have "pipeline_loop env n P x t k ?s1 = Some (Success, ?s1)"
      by (simp add: pipeline_loop_done)
    then have e: "s' = ?s1" using run step by simp
    have z: "nat ((n - (a + P) + P - 1) div P) = 0" using P0 False by (rule tile_count_done)
    show ?thesis unfolding e p1 cnt z by simp
  qed
qed

lemma pipeline_run_passed:
  fixes env :: "('a, 'v, 'r) collaborators" and x :: "'v list" and t :: NumericType and k :: int
    and st :: "'r search_state"
  assumes n: "1 \<le> n" and P: "1 \<le> P" and x: "nat n \<le> length x"
    and run: "pipeline_loop env n P x t k (pipeline_init st) = Some (r, s')"
  shows "passed s' = map (\<lambda>j. page n P x (int j * P)) [0 ..< nat (ceil_div n P)]"
    and "concat (passed s') = take (nat n) x"
proof -
  let ?s1 = "snd (pipeline_iteration env n P x t k (pipeline_init st))"
  note f = first_iteration[OF n P, of env x t k st]
  have "cur3 (pipeline_init st) < n" using n by (simp add: cur3_init)
  then have step: "pipeline_loop env n P x t k (pipeline_init st) = pipeline_loop env n P x t k ?s1"
    using f(1) by (rule pipeline_loop_step)
  have lp: "length (page n P x 0) = nat (min P (n - 0))" using n x by (intro length_page) simp_all
  have pg: "take (nat (min P (n - 0))) (bufPinned ?s1 ! cur2BufIndex ?s1) = page n P x 0"
    unfolding f(3) f(6) using lp by simp
  have run1: "pipeline_loop env n P x t k ?s1 = Some (r, s')" using run step by simp
  from pipeline_loop_passed[OF P x f(2) pg run1]
  show p: "passed s' = map (\<lambda>j. page n P x (int j * P)) [0 ..< nat (ceil_div n P)]"
    unfolding f(7) by (simp add: ceil_div_def)
  have P0: "0 < P" using P by simp
  show "concat (passed s') = take (nat n) x"
    unfolding p using concat_slices[OF P0, of 0 n x] by (simp add: page_def ceil_div_def)
qed

lemma searchImpl_calls_run:
  "searchImpl_calls (tr @ HostToPinned 0 (min P n) 0 #
             concat (map (\<lambda>j. iteration_events n P t k (int j * P) (j mod 2))
                       [0 ..< nat (ceil_div n P)]))
   = searchImpl_calls tr @ map (\<lambda>j. (min P (n - int j * P), int j * P)) [0 ..< nat (ceil_div n P)]"
  by (simp add: searchImpl_calls_append searchImpl_calls_concat comp_def searchImpl_calls_iteration)

text \<open>
  C2. The double-buffered loop with \<open>n \<ge> 1\<close> queries and a page of \<open>pageSizeInVecs \<ge> 1\<close>
  vectors returns, without a failed assertion, in a state where all three cursors are
  \<open>n\<close>. What it has issued is the copy-in of the first page and then, for each page in
  turn, the transfer of the page (cursor 2), the computation on it (cursor 3) and the
  copy-in of the page after it (cursor 1), in this order. The \<open>j\<close>-th call of
  \<open>searchImpl_\<close> is told to write its rows from output row \<open>j * pageSizeInVecs\<close> on, and
  the query indices the calls are told to cover are \<open>0, 1, \<dots>, n - 1\<close>, each once. When
  \<open>x\<close> holds the \<open>n\<close> queries, the batch that the \<open>j\<close>-th call reads from the device
  buffer it is pointed at is the queries \<open>j * pageSizeInVecs, \<dots>\<close> of \<open>x\<close>, as many as the
  page has, so that the batches handed to \<open>searchImpl_\<close>, in call order, make up the
  queries \<open>0, 1, \<dots>, n - 1\<close> of \<open>x\<close>, each once. At every loop head
  \<open>cur3 \<le> cur2 \<le> cur1\<close>.
\<close>

theorem pipeline_terminates_and_covers:
  fixes env :: "('a, 'v, 'r) collaborators" and x :: "'v list" and t :: NumericType and k :: int
    and st :: "'r search_state"
  assumes "1 \<le> n" and "1 \<le> pageSizeInVecs"
  shows "\<exists>s'. pipeline_loop env n pageSizeInVecs x t k (pipeline_init st) = Some (Success, s')
        \<and> cur1 s' = n \<and> cur2 s' = n \<and> cur3 s' = n
        \<and> issued s' = snd st @ HostToPinned 0 (min pageSizeInVecs n) 0 #
             concat (map (\<lambda>j. iteration_events n pageSizeInVecs t k (int j * pageSizeInVecs) (j mod 2))
                       [0 ..< nat (ceil_div n pageSizeInVecs)])
        \<and> searchImpl_calls (issued s') = searchImpl_calls (snd st) @
             map (\<lambda>j. (min pageSizeInVecs (n - int j * pageSizeInVecs), int j * pageSizeInVecs))
               [0 ..< nat (ceil_div n pageSizeInVecs)]
        \<and> searched (issued s') = searched (snd st) @ map int [0 ..< nat n]
        \<and> (nat n \<le> length x \<longrightarrow>
             passed s' = map (\<lambda>j. page n pageSizeInVecs x (int j * pageSizeInVecs))
                           [0 ..< nat (ceil_div n pageSizeInVecs)]
             \<and> concat (passed s') = take (nat n) x)
        \<and> (\<forall>s. loop_head env n pageSizeInVecs x t k (pipeline_init st) s \<longrightarrow>
                 cur3 s \<le> cur2 s \<and> cur2 s \<le> cur1 s)"
proof -
  from pipeline_run[OF assms, of env x t k st] obtain s' where
    r: "pipeline_loop env n pageSizeInVecs x t k (pipeline_init st) = Some (Success, s')"
    and c: "cur1 s' = n" "cur2 s' = n" "cur3 s' = n"
    and e: "issued s' = snd st @ HostToPinned 0 (min pageSizeInVecs n) 0 #
             concat (map (\<lambda>j. iteration_events n pageSizeInVecs t k (int j * pageSizeInVecs) (j mod 2))
                       [0 ..< nat (ceil_div n pageSizeInVecs)])"
    by blast
  have sc: "searchImpl_calls (issued s') = searchImpl_calls (snd st) @
             map (\<lambda>j. (min pageSizeInVecs (n - int j * pageSizeInVecs), int j * pageSizeInVecs))
               [0 ..< nat (ceil_div n pageSizeInVecs)]"
    unfolding e by (rule searchImpl_calls_run)
  have q: "searched (issued s') = searched (snd st) @ map int [0 ..< nat n]"
    unfolding e by (rule searched_run[OF assms])
  have b: "nat n \<le> length x \<longrightarrow>
             passed s' = map (\<lambda>j. page n pageSizeInVecs x (int j * pageSizeInVecs))
                           [0 ..< nat (ceil_div n pageSizeInVecs)]
             \<and> concat (passed s') = take (nat n) x"
    using pipeline_run_passed[OF assms _ r] by blast
  have i: "\<forall>s. loop_head env n pageSizeInVecs x t k (pipeline_init st) s \<longrightarrow>
                 cur3 s \<le> cur2 s \<and> cur2 s \<le> cur1 s"
    using loop_head_cursors[OF assms] by blast
  show ?thesis using r c e sc q b i by blast
qed

lemma upt_3: "[0 ..< 3] = [0, 1, 2]"
  by code_simp

lemma upt_5: "[0 ..< 5] = [0, 1, 2, 3, 4]"
  by code_simp

theorem pipeline_terminates_and_covers_witness:
  "1 \<le> (5::int) \<and> 1 \<le> (2::int) \<and> nat 5 \<le> length [10, 20, 30, 40, 50 :: int]
   \<and> (\<exists>s'. pipeline_loop example_env 5 2 [10, 20, 30, 40, 50] Float32 3
               (pipeline_init ([0, 0, 0, 0, 0], [])) = Some (Success, s')
          \<and> cur1 s' = 5 \<and> cur2 s' = 5 \<and> cur3 s' = 5
          \<and> issued s' =
              [HostToPinned 0 2 0,
               PinnedToGpu 0 2 0, SearchImpl 2 0 Float32 3, HostToPinned 2 2 1,
               PinnedToGpu 2 2 1, SearchImpl 2 2 Float32 3, HostToPinned 4 1 0,
               PinnedToGpu 4 1 0, SearchImpl 1 4 Float32 3]
          \<and> searchImpl_calls (issued s') = [(2, 0), (2, 2), (1, 4)]
          \<and> searched (issued s') = [0, 1, 2, 3, 4]
          \<and> passed s' = [[10, 20], [30, 40], [50]]
          \<and> concat (passed s') = [10, 20, 30, 40, 50])
   \<and> loop_head example_env 5 2 [10, 20, 30, 40, 50] Float32 3
         (pipeline_init ([0, 0, 0, 0, 0], [])) (pipeline_init ([0, 0, 0, 0, 0], []))
   \<and> cur3 (pipeline_init ([0, 0, 0, 0, 0], []) :: (int, int) pipeline)
       \<le> cur2 (pipeline_init ([0, 0, 0, 0, 0], []) :: (int, int) pipeline)"
proof -
  have h1: "1 \<le> (5::int)" and h2: "1 \<le> (2::int)" by simp_all
  let ?st = "([0, 0, 0, 0, 0] :: int list, [] :: event list)"
  let ?x = "[10, 20, 30, 40, 50] :: int list"
  have h3: "nat 5 \<le> length ?x" by simp
  from pipeline_terminates_and_covers[OF h1 h2, of example_env ?x Float32 3 ?st]
  obtain s' where
    r: "pipeline_loop example_env 5 2 ?x Float32 3 (pipeline_init ?st) = Some (Success, s')"
    and c: "cur1 s' = 5" "cur2 s' = 5" "cur3 s' = 5"
    and e: "issued s' = snd ?st @ HostToPinned 0 (min 2 5) 0 #
             concat (map (\<lambda>j. iteration_events 5 2 Float32 3 (int j * 2) (j mod 2))
                       [0 ..< nat (ceil_div 5 2)])"
    and sc: "searchImpl_calls (issued s') = searchImpl_calls (snd ?st) @
             map (\<lambda>j. (min 2 (5 - int j * 2), int j * 2)) [0 ..< nat (ceil_div 5 2)]"
    and q: "searched (issued s') = searched (snd ?st) @ map int [0 ..< nat 5]"
    and b: "nat 5 \<le> length ?x \<longrightarrow>
             passed s' = map (\<lambda>j. page 5 2 ?x (int j * 2)) [0 ..< nat (ceil_div 5 2)]
             \<and> concat (passed s') = take (nat 5) ?x"
    and i: "\<forall>s. loop_head example_env 5 2 ?x Float32 3 (pipeline_init ?st) s \<longrightarrow>
                 cur3 s \<le> cur2 s \<and> cur2 s \<le> cur1 s"
    by (elim exE conjE)
  have n3: "nat (ceil_div 5 2) = 3" by (simp add: ceil_div_def)
  have e': "issued s' =
              [HostToPinned 0 2 0,
               PinnedToGpu 0 2 0, SearchImpl 2 0 Float32 3, HostToPinned 2 2 1,
               PinnedToGpu 2 2 1, SearchImpl 2 2 Float32 3, HostToPinned 4 1 0,
               PinnedToGpu 4 1 0, SearchImpl 1 4 Float32 3]"
    unfolding e n3 upt_3 by (simp add: iteration_events_def flip_def)
  have sc': "searchImpl_calls (issued s') = [(2, 0), (2, 2), (1, 4)]"
    unfolding sc n3 upt_3 by simp
  have q': "searched (issued s') = [0, 1, 2, 3, 4]"
    unfolding q by (simp add: searched_def upt_5)
  from b h3 have b1: "passed s' = map (\<lambda>j. page 5 2 ?x (int j * 2)) [0 ..< nat (ceil_div 5 2)]"
    and b2: "concat (passed s') = take (nat 5) ?x"
    by blast+
  have p': "passed s' = [[10, 20], [30, 40], [50]]"
    unfolding b1 n3 upt_3 by (simp add: page_def)
  have p'': "concat (passed s') = [10, 20, 30, 40, 50]"
    unfolding b2 by simp
  have l: "loop_head example_env 5 2 ?x Float32 3 (pipeline_init ?st) (pipeline_init ?st)"
    by (rule loop_head.first)
  have o: "cur3 (pipeline_init ?st :: (int, int) pipeline) \<le> cur2 (pipeline_init ?st :: (int, int) pipeline)"
    using i[rule_format, OF l] by (rule conjunct1)
  have "\<exists>s'. pipeline_loop example_env 5 2 ?x Float32 3 (pipeline_init ?st) = Some (Success, s')
          \<and> cur1 s' = 5 \<and> cur2 s' = 5 \<and> cur3 s' = 5
          \<and> issued s' =
              [HostToPinned 0 2 0,
               PinnedToGpu 0 2 0, SearchImpl 2 0 Float32 3, HostToPinned 2 2 1,
               PinnedToGpu 2 2 1, SearchImpl 2 2 Float32 3, HostToPinned 4 1 0,
               PinnedToGpu 4 1 0, SearchImpl 1 4 Float32 3]
          \<and> searchImpl_calls (issued s') = [(2, 0), (2, 2), (1, 4)]
          \<and> searched (issued s') = [0, 1, 2, 3, 4]
          \<and> passed s' = [[10, 20], [30, 40], [50]]
          \<and> concat (passed s') = [10, 20, 30, 40, 50]"
    using r c e' sc' q' p' p'' by (intro exI[of _ s'] conjI)
  then show ?thesis using h1 h2 h3 l o by (intro conjI)
qed

subsection \<open>Sequential paging and the page sizes\<close>

lemma searchNonPaged_supported:
  "supported t \<Longrightarrow>
   searchNonPaged env m xs t k off (out, tr) =
     (Success, write_rows out off (searchImpl env (take (nat m) xs) t k),
      tr @ [ToDeviceTemporary Vectors m, SearchImpl m off t k])"
  by (auto simp: supported_def searchNonPaged_def searchNonPaged_arm_def)

lemma searchNonPaged_unsupported:
  "\<not> supported t \<Longrightarrow> searchNonPaged env m xs t k off st = (Failure UnsupportedEncoding, st)"
  by (simp add: supported_def searchNonPaged_def)

lemma unbuffered_done:
  "\<not> cur < n \<Longrightarrow> searchFromCpuPaged_unbuffered env n x t k bs cur st = Some (Success, st)"
  by (subst searchFromCpuPaged_unbuffered.simps) simp

lemma unbuffered_step:
  "cur < n \<Longrightarrow> supported t \<Longrightarrow>
   searchFromCpuPaged_unbuffered env n x t k bs cur (out, tr) =
   searchFromCpuPaged_unbuffered env n x t k bs (cur + bs)
     (write_rows out cur (searchImpl env (take (nat (min bs (n - cur))) (drop (nat cur) x)) t k),
      tr @ [ToDeviceTemporary Vectors (min bs (n - cur)), SearchImpl (min bs (n - cur)) cur t k])"
  by (subst searchFromCpuPaged_unbuffered.simps)
     (auto simp: Let_def searchNonPaged_supported supported_def)

lemma unbuffered_step_unsupported:
  "cur < n \<Longrightarrow> \<not> supported t \<Longrightarrow>
   searchFromCpuPaged_unbuffered env n x t k bs cur st =
   searchFromCpuPaged_unbuffered env n x t k bs (cur + bs) st"
  by (subst searchFromCpuPaged_unbuffered.simps) (simp add: Let_def supported_def)

lemma unbuffered_returns:
  assumes "0 < bs"
  shows "\<exists>res. searchFromCpuPaged_unbuffered env n x t k bs cur st = Some res"
proof (induction "nat (n - cur)" arbitrary: cur st rule: less_induct)
  case less
  show ?case
  proof (cases "cur < n")
    case False
    then show ?thesis by (simp add: unbuffered_done)
  next
    case True
    have m: "nat (n - (cur + bs)) < nat (n - cur)" using True assms by linarith
    show ?thesis
    proof (cases "supported t")
      case True
      obtain out tr where st: "st = (out, tr)" by (cases st)
      show ?thesis unfolding st unbuffered_step[OF \<open>cur < n\<close> True] by (rule less[OF m])
    next
      case False
      show ?thesis unfolding unbuffered_step_unsupported[OF True False] by (rule less[OF m])
    qed
  qed
qed

lemma unbuffered_unsupported_silent:
  assumes "0 < bs" and "\<not> supported t"
  shows "searchFromCpuPaged_unbuffered env n x t k bs cur st = Some (Success, st)"
proof (induction "nat (n - cur)" arbitrary: cur rule: less_induct)
  case less
  show ?case
  proof (cases "cur < n")
    case False
    then show ?thesis by (simp add: unbuffered_done)
  next
    case True
    have m: "nat (n - (cur + bs)) < nat (n - cur)" using True assms by linarith
    show ?thesis unfolding unbuffered_step_unsupported[OF True assms(2)] by (rule less[OF m])
  qed
qed

lemma unbuffered_rows:
  fixes env :: "('a, 'v, 'r) collaborators" and x :: "'v list"
  assumes bs: "0 < bs" and sup: "supported t" and rw: "\<And>qs. searchImpl env qs t k = map f qs"
    and x: "nat n \<le> length x"
  shows "0 \<le> cur \<Longrightarrow> cur < n \<Longrightarrow> nat n \<le> length out \<Longrightarrow>
     searchFromCpuPaged_unbuffered env n x t k bs cur (out, tr) = Some (r, out', tr') \<Longrightarrow>
     r = Success \<and>
     out' = take (nat cur) out @ map f (take (nat (n - cur)) (drop (nat cur) x)) @ drop (nat n) out"
proof (induction "nat (n - cur)" arbitrary: cur out tr rule: less_induct)
  case less
  note c0 = less.prems(1) and cn = less.prems(2) and lo = less.prems(3) and run = less.prems(4)
  let ?num = "min bs (n - cur)"
  define out1 where "out1 = write_rows out (int (nat cur)) (map f (take (nat ?num) (drop (nat cur) x)))"
  define tr1 where "tr1 = tr @ [ToDeviceTemporary Vectors ?num, SearchImpl ?num cur t k]"
  have "searchFromCpuPaged_unbuffered env n x t k bs cur (out, tr)
        = searchFromCpuPaged_unbuffered env n x t k bs (cur + bs) (out1, tr1)"
    unfolding unbuffered_step[OF cn sup] rw out1_def tr1_def using c0 by simp
  then have run1: "searchFromCpuPaged_unbuffered env n x t k bs (cur + bs) (out1, tr1) = Some (r, out', tr')"
    using run by simp
  have le: "nat cur + nat ?num \<le> nat n" using c0 cn bs by linarith
  note rs = rows_step[OF le lo x, of f, folded out1_def]
  show ?case
  proof (cases "cur + bs < n")
    case True
    then have m: "?num = bs" by simp
    have lo1: "nat n \<le> length out1" using rs(1) lo by simp
    have c1: "0 \<le> cur + bs" using c0 bs by simp
    have "nat (n - (cur + bs)) < nat (n - cur)" using cn bs by linarith
    from less.hyps[OF this c1 True lo1 run1]
    have r: "r = Success" and o: "out' = take (nat (cur + bs)) out1
            @ map f (take (nat (n - (cur + bs))) (drop (nat (cur + bs)) x)) @ drop (nat n) out1"
      by simp_all
    have e1: "nat (cur + bs) = nat cur + nat ?num" using c0 bs m by (simp add: nat_add_distrib)
    have e2: "nat (n - (cur + bs)) = nat n - (nat cur + nat ?num)" using c0 bs m True by simp
    have e3: "nat (n - cur) = nat n - nat cur" using c0 cn by simp
    show ?thesis using r o rs(2) unfolding e1 e2 e3 by simp
  next
    case False
    then have m: "?num = n - cur" using cn by simp
    have "searchFromCpuPaged_unbuffered env n x t k bs (cur + bs) (out1, tr1) = Some (Success, out1, tr1)"
      using False by (simp add: unbuffered_done)
    then have e: "r = Success" "out' = out1" using run1 by simp_all
    have z: "nat n - (nat cur + nat ?num) = 0" using m c0 cn by simp
    have na: "nat (n - cur) = nat n - nat cur" using c0 cn by simp
    have f: "nat cur + nat ?num = nat n" using m c0 cn by simp
    have "take (nat n) out1 @ drop (nat n) out1 = out1" by simp
    then show ?thesis using rs(2) unfolding e z f na by simp
  qed
qed

lemma doubling_facts:
  "0 < p \<Longrightarrow> p \<le> doubling p v \<and> v < doubling p v \<and> (\<exists>e. doubling p v = p * 2 ^ e)"
proof (induction p v rule: doubling.induct)
  case (1 p v)
  show ?case
  proof (cases "p \<le> v")
    case True
    then have rec: "doubling p v = doubling (2 * p) v"
      using "1.prems" by (subst doubling.simps) simp
    have c: "0 < p \<and> p \<le> v" using True "1.prems" by simp
    have p2: "0 < 2 * p" using "1.prems" by simp
    from "1.IH"[OF c p2]
    have ih: "2 * p \<le> doubling (2 * p) v" "v < doubling (2 * p) v"
      and ihe: "\<exists>e. doubling (2 * p) v = 2 * p * 2 ^ e" by simp_all
    from ihe obtain e where e: "doubling (2 * p) v = 2 * p * 2 ^ e" by (elim exE)
    have "doubling (2 * p) v = p * 2 ^ Suc e" unfolding e by simp
    then have ex: "\<exists>e. doubling p v = p * 2 ^ e" unfolding rec by blast
    have "p \<le> doubling (2 * p) v" using ih(1) "1.prems" by simp
    then show ?thesis unfolding rec using ih(2) ex[unfolded rec] by simp
  next
    case False
    then have e: "doubling p v = p" by (subst doubling.simps) simp
    have "p = p * 2 ^ 0" by simp
    then have "\<exists>e. p = p * 2 ^ e" by (rule exI)
    then show ?thesis unfolding e using False by simp
  qed
qed

lemma nextHighestPowerOf2_facts:
  "1 \<le> nextHighestPowerOf2 v \<and> v < nextHighestPowerOf2 v \<and> (\<exists>e. nextHighestPowerOf2 v = 2 ^ e)"
  using doubling_facts[of 1 v] by (simp add: nextHighestPowerOf2_def)

lemma get_numeric_type_size_supported:
  "supported t \<Longrightarrow> get_numeric_type_size other t = Inr (sizeof_data_t t)"
  by (auto simp: supported_def)

lemma searchFromCpuPaged_pinned:
  assumes "supported t" and "fst (getPinnedMemory env)"
    and "1 \<le> (snd (getPinnedMemory env) div 2) div (sizeof_data_t t * d this)"
  shows "searchFromCpuPaged env this n x t k st =
         searchFromCpuPaged_dispatch env n
           ((snd (getPinnedMemory env) div 2) div (sizeof_data_t t * d this)) x t k st"
  using assms
  by (auto simp: searchFromCpuPaged_def get_numeric_type_size_supported Let_def supported_def)

lemma searchFromCpuPaged_unpinned:
  assumes "supported t"
    and "\<not> fst (getPinnedMemory env)
         \<or> (snd (getPinnedMemory env) div 2) div (sizeof_data_t t * d this) < 1"
  shows "searchFromCpuPaged env this n x t k st =
         searchFromCpuPaged_unbuffered env n x t k
           (nextHighestPowerOf2 (kNonPinnedPageSize div (sizeof_data_t t * d this))) 0 st"
  using assms
  by (auto simp: searchFromCpuPaged_def get_numeric_type_size_supported Let_def)

lemma floor_page_size:
  fixes C m :: int
  assumes "0 < m"
  shows "(C div 2) div m = \<lfloor>real_of_int (C div 2) / real_of_int m\<rfloor>"
    and "(C div 2) div m = \<lfloor>real_of_int C / 2 / real_of_int m\<rfloor>"
proof -
  show "(C div 2) div m = \<lfloor>real_of_int (C div 2) / real_of_int m\<rfloor>"
    by (simp add: floor_divide_of_int_eq)
  have "(C div 2) div m = C div (2 * m)" using assms by (simp add: zdiv_zmult2_eq)
  also have "\<dots> = \<lfloor>real_of_int C / real_of_int (2 * m)\<rfloor>"
    by (simp only: floor_divide_of_int_eq)
  also have "real_of_int C / real_of_int (2 * m) = real_of_int C / 2 / real_of_int m" by simp
  finally show "(C div 2) div m = \<lfloor>real_of_int C / 2 / real_of_int m\<rfloor>" .
qed

text \<open>
  C4. For a paged search of a supported encoding with element size \<open>s\<close> on an index of
  dimensionality \<open>d > 0\<close>, with staging capacity \<open>C\<close>: the page size of the buffered path
  is \<open>(C / 2) / (s * d)\<close> rounded down (halving \<open>C\<close> as an integer or as a real gives the
  same), and with pinned memory and a page of at least one vector \<open>searchFromCpuPaged_\<close>
  is the double-buffered dispatch with that page size. Without pinned memory, or with a
  page below one vector, it is the sequential loop whose page size is
  \<open>nextHighestPowerOf2(kNonPinnedPageSize / (s * d))\<close>: a power of two above the
  quotient, never zero, so that the loop returns.
\<close>

theorem paged_search_page_size:
  fixes env :: "('a, 'v, 'r) collaborators" and x :: "'v list" and st :: "'r search_state"
  assumes "supported t" and "0 < d this"
  shows "let s = sizeof_data_t t;
             C = snd (getPinnedMemory env);
             pageSizeInVecs = (C div 2) div (s * d this);
             batchSize = nextHighestPowerOf2 (kNonPinnedPageSize div (s * d this))
         in get_numeric_type_size (otherTypeSize env) t = Inr s
          \<and> pageSizeInVecs = \<lfloor>real_of_int (C div 2) / real_of_int (s * d this)\<rfloor>
          \<and> pageSizeInVecs = \<lfloor>real_of_int C / 2 / real_of_int (s * d this)\<rfloor>
          \<and> (fst (getPinnedMemory env) \<and> 1 \<le> pageSizeInVecs \<longrightarrow>
                searchFromCpuPaged env this n x t k st
                = searchFromCpuPaged_dispatch env n pageSizeInVecs x t k st)
          \<and> (\<not> fst (getPinnedMemory env) \<or> pageSizeInVecs < 1 \<longrightarrow>
                searchFromCpuPaged env this n x t k st
                = searchFromCpuPaged_unbuffered env n x t k batchSize 0 st)
          \<and> 1 \<le> batchSize
          \<and> kNonPinnedPageSize div (s * d this) < batchSize
          \<and> (\<exists>e. batchSize = 2 ^ e)
          \<and> (\<exists>res. searchFromCpuPaged_unbuffered env n x t k batchSize 0 st = Some res)"
proof -
  let ?s = "sizeof_data_t t"
  let ?batch = "nextHighestPowerOf2 (kNonPinnedPageSize div (?s * d this))"
  have spos: "0 < ?s" using assms(1) by (auto simp: supported_def)
  then have m: "0 < ?s * d this" using assms(2) by simp
  note np = nextHighestPowerOf2_facts[of "kNonPinnedPageSize div (?s * d this)"]
  have b0: "0 < ?batch" using np by simp
  show ?thesis
    unfolding Let_def
    using get_numeric_type_size_supported[OF assms(1), of "otherTypeSize env"]
      floor_page_size[OF m, of "snd (getPinnedMemory env)"]
      searchFromCpuPaged_pinned[OF assms(1), of env this n x k st]
      searchFromCpuPaged_unpinned[OF assms(1), of env this n x k st]
      np unbuffered_returns[OF b0, of env n x t k 0 st]
    by blast
qed

lemma example_batch_size:
  "nextHighestPowerOf2 (kNonPinnedPageSize div (sizeof_data_t Float32 * d example_index)) = 33554432"
  by code_simp

theorem paged_search_page_size_witness:
  "supported Float32 \<and> 0 < d example_index
   \<and> fst (getPinnedMemory example_env)
   \<and> (snd (getPinnedMemory example_env) div 2) div (sizeof_data_t Float32 * d example_index) = 2
   \<and> searchFromCpuPaged example_env example_index 5 [1, 2, 3, 4, 5] Float32 3 ([0, 0, 0, 0, 0], [])
       = searchFromCpuPaged_dispatch example_env 5 2 [1, 2, 3, 4, 5] Float32 3 ([0, 0, 0, 0, 0], [])
   \<and> \<not> fst (getPinnedMemory unpinned_env)
   \<and> searchFromCpuPaged unpinned_env example_index 5 [1, 2, 3, 4, 5] Float32 3 ([0, 0, 0, 0, 0], [])
       = searchFromCpuPaged_unbuffered unpinned_env 5 [1, 2, 3, 4, 5] Float32 3 33554432 0
           ([0, 0, 0, 0, 0], [])
   \<and> (\<exists>res. searchFromCpuPaged_unbuffered unpinned_env 5 [1, 2, 3, 4, 5] Float32 3 33554432 0
           ([0, 0, 0, 0, 0], []) = Some res)"
proof -
  have h1: "supported Float32" by (simp add: supported_def)
  have h2: "0 < d example_index" by (simp add: example_index_def)
  have p: "fst (getPinnedMemory example_env)" by (simp add: example_env_def)
  have u: "\<not> fst (getPinnedMemory unpinned_env)" by (simp add: unpinned_env_def)
  have pg: "(snd (getPinnedMemory example_env) div 2) div (sizeof_data_t Float32 * d example_index) = 2"
    by (simp add: example_env_def example_index_def)
  let ?x = "[1, 2, 3, 4, 5] :: int list"
  let ?st = "([0, 0, 0, 0, 0] :: int list, [] :: event list)"
  from paged_search_page_size[OF h1 h2, of example_env 5 ?x 3 ?st] p
  have a: "searchFromCpuPaged example_env example_index 5 ?x Float32 3 ?st
       = searchFromCpuPaged_dispatch example_env 5 2 ?x Float32 3 ?st"
    unfolding Let_def pg by simp
  from paged_search_page_size[OF h1 h2, of unpinned_env 5 ?x 3 ?st] u
  have b: "searchFromCpuPaged unpinned_env example_index 5 ?x Float32 3 ?st
       = searchFromCpuPaged_unbuffered unpinned_env 5 ?x Float32 3 33554432 0 ?st"
    and c: "\<exists>res. searchFromCpuPaged_unbuffered unpinned_env 5 ?x Float32 3 33554432 0 ?st = Some res"
    unfolding Let_def example_batch_size by simp_all
  show ?thesis using h1 h2 p pg a u b c by (intro conjI)
qed

lemma unsupported_tag_raises:
  fixes env :: "('a, 'v, 'r) collaborators"
  assumes "\<not> supported t"
  shows "addPage env n x t ids st = (Failure UnsupportedEncoding, st)"
    and "1 \<le> n \<Longrightarrow> addPaged env n x t ids st = Some (Failure UnsupportedEncoding, st)"
    and "searchNonPaged env n qs t k off st' = (Failure UnsupportedEncoding, st')"
    and "get_numeric_type_size (otherTypeSize env) t = Inr s \<Longrightarrow> fst (getPinnedMemory env) \<Longrightarrow>
         1 \<le> (snd (getPinnedMemory env) div 2) div (s * d this) \<Longrightarrow>
         searchFromCpuPaged env this n qs t k st' = Some (Failure UnsupportedEncoding, st')"
  using assms
  by (auto simp: addPage_unsupported addPaged_unsupported searchNonPaged_unsupported
        searchFromCpuPaged_def Let_def supported_def)

lemma unsupported_tag_passes_unbuffered:
  fixes env :: "('a, 'v, 'r) collaborators"
  assumes "\<not> supported t" and "get_numeric_type_size (otherTypeSize env) t = Inr s"
    and "\<not> fst (getPinnedMemory env) \<or> (snd (getPinnedMemory env) div 2) div (s * d this) < 1"
  shows "searchFromCpuPaged env this n qs t k st = Some (Success, st)"
proof -
  have "0 < nextHighestPowerOf2 (kNonPinnedPageSize div (s * d this))"
    using nextHighestPowerOf2_facts[of "kNonPinnedPageSize div (s * d this)"] by simp
  from unbuffered_unsupported_silent[OF this assms(1), of env n qs k 0 st] assms(2,3)
  show ?thesis by (auto simp: searchFromCpuPaged_def Let_def)
qed

text \<open>
  C5 at the sequential paging of \<open>searchFromCpuPaged_\<close>. The other dispatch sites throw
  for a tag outside the supported set (\<open>unsupported_tag_raises\<close>). The chain of tag tests
  in the body of the sequential loop has no final \<open>else\<close>: when the size lookup returns
  for the tag and pinned memory is missing, no page is searched and nothing is thrown
  (\<open>unsupported_tag_passes_unbuffered\<close>). A host-resident batch of five queries on the
  example index, without pinned memory: \<open>search\<close> returns success, the output rows are
  the ones it was given, and the implementation was never called.
\<close>

theorem unbuffered_search_accepts_unsupported_tag:
  "is_trained example_index \<and> \<not> supported OtherNumericType
   \<and> search unpinned_env example_index 5 [1, 2, 3, 4, 5] True OtherNumericType 3
        ([0, 0, 0, 0, 0], [])
      = Some (Success, [0, 0, 0, 0, 0],
              [ToDeviceTemporary Distances 5, ToDeviceTemporary Labels 5,
               FromDevice Distances, FromDevice Labels])"
  by code_simp

subsection \<open>Equivalence of the two paged paths\<close>

lemma search_paged:
  fixes env :: "('a, 'v, 'r) collaborators" and x :: "'v list"
  assumes "supported t" and "is_trained this"
    and "validateKSelect env k (should_use_cuvs env (config this)) = Success"
    and "1 \<le> n"
    and "minPagedSize this \<le> to_size_t (n * d this * sizeof_data_t t)"
  shows "search env this n x True t k (out, tr) =
         map_option copy_back
           (searchFromCpuPaged env this n x t k
              (out, tr @ [ToDeviceTemporary Distances n, ToDeviceTemporary Labels n]))"
proof -
  have "k \<noteq> 0" using assms(3) by (auto simp: validateKSelect_def split: if_splits)
  then show ?thesis using assms
    by (simp add: search_def get_numeric_type_size_supported Let_def)
qed

text \<open>
  C1. Let the search implementation answer each query by itself (row \<open>i\<close> of its result
  depends on query \<open>i\<close> only: it is \<open>map f\<close> on a batch). Take a trained index, a
  supported encoding, a valid \<open>k\<close>, \<open>n \<ge> 1\<close> host-resident queries whose byte size
  \<open>n * d * s\<close> is at least the minimum paged size, and an output tensor of \<open>n\<close> rows. With
  pinned memory for a page of at least one vector the search runs the double-buffered
  loop; with the staging memory replaced by one that is unavailable or too small for one
  vector it runs the sequential paging. Both return success with the same output rows,
  the implementation's answer to each query in query order.
\<close>

theorem pipeline_equals_sequential_paging:
  fixes env :: "('a, 'v, 'r) collaborators" and x :: "'v list" and out :: "'r list"
  assumes rw: "\<forall>qs. searchImpl env qs t k = map f qs"
    and sup: "supported t" and trained: "is_trained this" and dpos: "0 < d this"
    and kok: "validateKSelect env k (should_use_cuvs env (config this)) = Success"
    and n: "1 \<le> n" and lx: "length x = nat n" and lo: "length out = nat n"
    and big: "minPagedSize this \<le> to_size_t (n * d this * sizeof_data_t t)"
    and pin: "fst (getPinnedMemory env)"
             "1 \<le> (snd (getPinnedMemory env) div 2) div (sizeof_data_t t * d this)"
    and nopin: "\<not> fst pm \<or> (snd pm div 2) div (sizeof_data_t t * d this) < 1"
  shows "\<exists>tr1 tr2.
           search env this n x True t k (out, tr) = Some (Success, map f x, tr1)
         \<and> search (env\<lparr>getPinnedMemory := pm\<rparr>) this n x True t k (out, tr)
             = Some (Success, map f x, tr2)"
proof -
  let ?st = "(out, tr @ [ToDeviceTemporary Distances n, ToDeviceTemporary Labels n])"
  let ?P = "(snd (getPinnedMemory env) div 2) div (sizeof_data_t t * d this)"
  let ?env2 = "env\<lparr>getPinnedMemory := pm\<rparr>"
  let ?bs = "nextHighestPowerOf2 (kNonPinnedPageSize div (sizeof_data_t t * d this))"
  have rw1: "\<And>qs. searchImpl env qs t k = map f qs" using rw by simp
  have rw2: "\<And>qs. searchImpl ?env2 qs t k = map f qs" using rw by simp
  have xs: "nat n \<le> length x" and os: "nat n \<le> length (fst ?st)" using lx lo by simp_all
  have full: "map f (take (nat n) x) @ drop (nat n) out = map f x" using lx lo by simp
  \<comment> \<open>the double-buffered path\<close>
  from pipeline_run[OF n pin(2), of env x t k ?st] obtain s' where
    r1: "pipeline_loop env n ?P x t k (pipeline_init ?st) = Some (Success, s')" by blast
  from pipeline_run_rows[OF n pin(2) rw1 xs os r1]
  have o1: "outRows s' = map f x" using full by simp
  have p1: "searchFromCpuPaged env this n x t k ?st = Some (Success, map f x, issued s')"
    unfolding searchFromCpuPaged_pinned[OF sup pin] searchFromCpuPaged_dispatch_def r1
    using o1 by simp
  have s1: "search env this n x True t k (out, tr)
            = Some (Success, map f x, issued s' @ [FromDevice Distances, FromDevice Labels])"
    unfolding search_paged[OF sup trained kok n big] p1 by (simp add: copy_back_def)
  \<comment> \<open>the sequential path\<close>
  have kok2: "validateKSelect ?env2 k (should_use_cuvs ?env2 (config this)) = Success"
    using kok by (simp add: validateKSelect_def should_use_cuvs_def)
  have nopin2: "\<not> fst (getPinnedMemory ?env2)
         \<or> (snd (getPinnedMemory ?env2) div 2) div (sizeof_data_t t * d this) < 1"
    using nopin by simp
  have b0: "0 < ?bs"
    using nextHighestPowerOf2_facts[of "kNonPinnedPageSize div (sizeof_data_t t * d this)"] by simp
  from unbuffered_returns[OF b0, of ?env2 n x t k 0 ?st] obtain r out' tr' where
    r2: "searchFromCpuPaged_unbuffered ?env2 n x t k ?bs 0 ?st = Some (r, out', tr')"
    by (metis prod_cases3)
  have n0: "(0::int) < n" using n by simp
  from unbuffered_rows[OF b0 sup rw2 xs _ n0 _ r2] lo
  have o2: "r = Success" "out' = map f x" using full by simp_all
  have p2: "searchFromCpuPaged ?env2 this n x t k ?st = Some (Success, map f x, tr')"
    unfolding searchFromCpuPaged_unpinned[OF sup nopin2] r2 using o2 by simp
  have s2: "search ?env2 this n x True t k (out, tr)
            = Some (Success, map f x, tr' @ [FromDevice Distances, FromDevice Labels])"
    unfolding search_paged[OF sup trained kok2 n big] p2 by (simp add: copy_back_def)
  show ?thesis using s1 s2 by blast
qed

lemma example_pipelined_search:
  "search example_env example_index 5 [1, 2, 3, 4, 5] True Float32 3 ([0, 0, 0, 0, 0], [])
   = Some (Success, [13, 23, 33, 43, 53],
       [ToDeviceTemporary Distances 5, ToDeviceTemporary Labels 5,
        HostToPinned 0 2 0, PinnedToGpu 0 2 0, SearchImpl 2 0 Float32 3,
        HostToPinned 2 2 1, PinnedToGpu 2 2 1, SearchImpl 2 2 Float32 3,
        HostToPinned 4 1 0, PinnedToGpu 4 1 0, SearchImpl 1 4 Float32 3,
        FromDevice Distances, FromDevice Labels])"
  by code_simp

lemma example_sequential_search:
  "search unpinned_env example_index 5 [1, 2, 3, 4, 5] True Float32 3 ([0, 0, 0, 0, 0], [])
   = Some (Success, [13, 23, 33, 43, 53],
       [ToDeviceTemporary Distances 5, ToDeviceTemporary Labels 5,
        ToDeviceTemporary Vectors 5, SearchImpl 5 0 Float32 3,
        FromDevice Distances, FromDevice Labels])"
  by code_simp

theorem pipeline_equals_sequential_paging_witness:
  "(\<forall>qs. searchImpl example_env qs Float32 3 = map (\<lambda>q. 10 * q + 3) qs)
   \<and> supported Float32 \<and> is_trained example_index \<and> 0 < d example_index
   \<and> validateKSelect example_env 3 (should_use_cuvs example_env (config example_index)) = Success
   \<and> 1 \<le> (5::int) \<and> length [1, 2, 3, 4, 5 :: int] = nat 5 \<and> length [0, 0, 0, 0, 0 :: int] = nat 5
   \<and> minPagedSize example_index \<le> to_size_t (5 * d example_index * sizeof_data_t Float32)
   \<and> fst (getPinnedMemory example_env)
   \<and> 1 \<le> (snd (getPinnedMemory example_env) div 2) div (sizeof_data_t Float32 * d example_index)
   \<and> unpinned_env = example_env\<lparr>getPinnedMemory := (False, 0)\<rparr>
   \<and> (\<exists>tr1 tr2.
         search example_env example_index 5 [1, 2, 3, 4, 5] True Float32 3 ([0, 0, 0, 0, 0], [])
           = Some (Success, [13, 23, 33, 43, 53], tr1)
       \<and> search unpinned_env example_index 5 [1, 2, 3, 4, 5] True Float32 3 ([0, 0, 0, 0, 0], [])
           = Some (Success, [13, 23, 33, 43, 53], tr2))"
proof -
  have rw: "\<forall>qs. searchImpl example_env qs Float32 3 = map (\<lambda>q. 10 * q + 3) qs"
    by (simp add: example_env_def)
  have sup: "supported Float32" by (simp add: supported_def)
  have trained: "is_trained example_index" and dpos: "0 < d example_index"
    by (simp_all add: example_index_def)
  have kok: "validateKSelect example_env 3 (should_use_cuvs example_env (config example_index)) = Success"
    by (simp add: validateKSelect_def example_env_def)
  have n: "1 \<le> (5::int)" by simp
  have lx: "length [1, 2, 3, 4, 5 :: int] = nat 5" and lo: "length [0, 0, 0, 0, 0 :: int] = nat 5"
    by simp_all
  have big: "minPagedSize example_index \<le> to_size_t (5 * d example_index * sizeof_data_t Float32)"
    by (simp add: example_index_def to_size_t_def)
  have pin: "fst (getPinnedMemory example_env)"
    "1 \<le> (snd (getPinnedMemory example_env) div 2) div (sizeof_data_t Float32 * d example_index)"
    by (simp_all add: example_env_def example_index_def)
  have nopin: "\<not> fst (False, 0::int) \<or> (snd (False, 0::int) div 2) div (sizeof_data_t Float32 * d example_index) < 1"
    by simp
  have m: "map (\<lambda>q. 10 * q + 3) [1, 2, 3, 4, 5 :: int] = [13, 23, 33, 43, 53]" by simp
  from pipeline_equals_sequential_paging[OF rw sup trained dpos kok n lx lo big pin nopin, of "[]"]
  have "\<exists>tr1 tr2.
         search example_env example_index 5 [1, 2, 3, 4, 5] True Float32 3 ([0, 0, 0, 0, 0], [])
           = Some (Success, [13, 23, 33, 43, 53], tr1)
       \<and> search unpinned_env example_index 5 [1, 2, 3, 4, 5] True Float32 3 ([0, 0, 0, 0, 0], [])
           = Some (Success, [13, 23, 33, 43, 53], tr2)"
    unfolding m unpinned_env_def .
  then show ?thesis using rw sup trained dpos kok n lx lo big pin unpinned_env_def by (intro conjI)
qed

end
